theory Spec2Isabelle
  imports Main "HOL-Library.Word"
begin

section \<open>Data model (liby/y.h and the private types of liby/y.c)\<close>

text \<open>
  Pointers into a unit's buffer are byte offsets (\<open>nat\<close>); a pointer that is NULL in the
  source is \<open>None\<close>. A \<open>string_t\<close> slice (pointer and length, not NUL-terminated) is the
  list of the bytes it covers, read when the slice is made: the lexer only ever writes the
  byte under its cursor, which comes after every slice already taken.

  Every way the C code can leave a function without a result is a value of \<open>error\<close>:
  \<open>Fatal\<close> is \<open>fatal_at\<close> (which prints the message and calls \<open>exit(1)\<close>), the others
  are undefined behaviour of the C program: a read beyond the terminating NUL of a buffer,
  the dereference of a pointer that is not a node (the bytes of a scalar read as a
  pointer), the end of \<open>y_find\<close>, which is reached without a \<open>return\<close>, the dereference
  of a pointer to a local variable of a function that has returned, and a store into an
  object that is const.
\<close>

datatype error =
    Fatal string
  | Out_of_bounds
  | Wild_pointer
  | No_return
  | Dangling_pointer
  | Const_store

datatype y_kind = Y_NONE | Y_NODE | Y_STRING | Y_INTEGER | Y_DECIMAL

text \<open>
  \<open>y_value_t\<close> is a tagged union. A Decimal is kept as the decimal text that \<open>strtod\<close>
  converts (see \<open>strtod_text\<close>): the \<open>f64\<close> of the source is the double nearest to the
  number this text writes.
\<close>

datatype 'n y_value =
    Val_none
  | Val_node "'n list"
  | Val_string string
  | Val_integer "64 word"
  | Val_decimal string

datatype y_note = Y_note (note_name: string)

text \<open>
  A sibling list (the \<open>next\<close> chain) is a list; \<open>parent\<close> is the containing node and is
  read by no function of the library.
\<close>

datatype y_node = Y_node (name: string) (note_n: "y_note list") (value_n: "y_node y_value")

fun value_kind :: "'n y_value \<Rightarrow> y_kind" where
  "value_kind Val_none = Y_NONE"
| "value_kind (Val_node _) = Y_NODE"
| "value_kind (Val_string _) = Y_STRING"
| "value_kind (Val_integer _) = Y_INTEGER"
| "value_kind (Val_decimal _) = Y_DECIMAL"

text \<open>
  The token kinds. \<open>lex_token\<close> passes the character itself as the kind of a structural
  token (\<open>token_new(unit, *ch, ch, ch + 1)\<close>) and the parser asks for \<open>'{'\<close>, \<open>'}'\<close> and
  \<open>'@'\<close>, so a kind is a number: the enum's values for the first four, the character code
  for the structural ones. \<open>TOKEN_DOT\<close> to \<open>TOKEN_CLOSE\<close> of the enum are never produced.
\<close>

type_synonym token = nat

definition TOKEN_NONE :: token where "TOKEN_NONE = 0"
definition TOKEN_TEXT :: token where "TOKEN_TEXT = 1"
definition TOKEN_NUMBER :: token where "TOKEN_NUMBER = 2"
definition TOKEN_STRING :: token where "TOKEN_STRING = 3"

record source_t =
  line :: nat
  start :: "nat option"
  begin_s :: "nat option"
  end_s :: "nat option"

record token_t =
  kind :: token
  source :: source_t
  value_t :: "y_node y_value"

text \<open>
  \<open>unit_t\<close>. \<open>data\<close> is the buffer the unit points to; the unit of \<open>y_find\<close> points to
  the caller's path (\<open>.data = (char *) path\<close>), so what the lexer stores there is stored
  into the caller's object. \<open>read_only\<close> is not a member of the struct: it tells whether
  that object is const (a string literal), in which case a store into it is undefined.
\<close>

record unit_t =
  data :: string
  start_u :: "nat option"
  length_u :: nat
  cursor :: nat
  line_u :: nat
  previous :: token_t
  current :: token_t
  read_only :: bool

section \<open>Lexer\<close>

text \<open>
  The buffer of a unit is \<open>data\<close> followed by one NUL byte (\<open>y_find\<close> lexes a C string;
  \<open>lex_token\<close> takes NUL for the end of a file). Reading further is undefined.
\<close>

definition byte_at :: "string \<Rightarrow> nat \<Rightarrow> char option" where
  "byte_at d i = (if i < length d then Some (d ! i) else if i = length d then Some (CHR 0x00) else None)"

text \<open>\<open>*ch\<close> for a pointer that \<open>raw\<close> has returned (it is within the buffer).\<close>

definition deref :: "unit_t \<Rightarrow> nat \<Rightarrow> char" where
  "deref u ch = (if ch < length (data u) then data u ! ch else CHR 0x00)"

definition isalpha :: "char \<Rightarrow> bool" where
  "isalpha c = (let n = (of_char c :: nat) in (65 \<le> n \<and> n \<le> 90) \<or> (97 \<le> n \<and> n \<le> 122))"

definition isdigit :: "char \<Rightarrow> bool" where
  "isdigit c = (let n = (of_char c :: nat) in 48 \<le> n \<and> n \<le> 57)"

text \<open>The loop of \<open>raw\<close>: \<open>while (*ch && *ch != '\n') ch = (unit->data + unit->cursor++);\<close>\<close>

function raw_loop :: "unit_t \<Rightarrow> nat \<Rightarrow> error + (nat \<times> unit_t)" where
  "raw_loop u ch =
     (case byte_at (data u) ch of
        None \<Rightarrow> Inl Out_of_bounds
      | Some c \<Rightarrow>
          if c \<noteq> CHR 0x00 \<and> c \<noteq> CHR 0x0A
          then raw_loop (u\<lparr>cursor := cursor u + 1\<rparr>) (cursor u)
          else Inr (ch, u))"
  by pat_completeness auto
termination
  by (relation "measure (\<lambda>(u, ch). 2 * (Suc (length (data u)) - cursor u)
                                     + (if ch \<le> length (data u) then 1 else 0))")
     (auto simp: byte_at_def split: if_splits)

text \<open>
  \<open>raw\<close>. The statement \<open>*ch += 2;\<close> adds 2 to the byte \<open>ch\<close> points to (the first \<open>/\<close>
  of the marker, which becomes \<open>1\<close>); it does not move \<open>ch\<close>. It is a store into the
  buffer of the unit.
\<close>

definition raw :: "unit_t \<Rightarrow> error + (nat \<times> unit_t)" where
  "raw u =
     (let ch = cursor u; u1 = u\<lparr>cursor := cursor u + 1\<rparr> in
      case byte_at (data u1) ch of
        None \<Rightarrow> Inl Out_of_bounds
      | Some c \<Rightarrow>
          if c = CHR ''/'' \<and> byte_at (data u1) (ch + 1) = Some (CHR ''/'')
          then (if read_only u1 then Inl Const_store
                else raw_loop (u1\<lparr>data := (data u1)[ch := char_of (of_char c + (2 :: nat))]\<rparr>) ch)
          else Inr (ch, u1))"

declare raw_loop.simps [simp del]

lemma raw_loop_facts:
  "raw_loop u ch = Inr (ch', u') \<Longrightarrow>
     cursor u \<le> cursor u' \<and> data u' = data u \<and> ch' \<le> length (data u)
     \<and> length_u u' = length_u u \<and> previous u' = previous u \<and> current u' = current u"
proof (induction u ch rule: raw_loop.induct)
  case (1 u ch)
  from "1.prems" obtain c where c: "byte_at (data u) ch = Some c"
    by (subst (asm) raw_loop.simps) (cases "byte_at (data u) ch", auto)
  show ?case
  proof (cases "c \<noteq> CHR 0x00 \<and> c \<noteq> CHR 0x0A")
    case True
    with c "1.prems" have "raw_loop (u\<lparr>cursor := cursor u + 1\<rparr>) (cursor u) = Inr (ch', u')"
      by (subst (asm) raw_loop.simps) simp
    from "1.IH" [OF c True this] show ?thesis by simp
  next
    case False
    with c "1.prems" have "ch' = ch \<and> u' = u"
      by (subst (asm) raw_loop.simps) auto
    with c show ?thesis by (auto simp: byte_at_def split: if_splits)
  qed
qed

lemma raw_facts:
  "raw u = Inr (ch, u') \<Longrightarrow>
     cursor u < cursor u' \<and> cursor u \<le> length (data u) \<and> length (data u') = length (data u)
     \<and> ch \<le> length (data u) \<and> length_u u' = length_u u
     \<and> previous u' = previous u \<and> current u' = current u"
  unfolding raw_def Let_def
  by (auto simp: byte_at_def split: option.splits if_splits dest!: raw_loop_facts)

text \<open>\<open>next\<close>: skips blanks one character at a time, counting lines.\<close>

function next_ch :: "unit_t \<Rightarrow> error + (nat \<times> unit_t)" where
  "next_ch u =
     (case raw u of
        Inl e \<Rightarrow> Inl e
      | Inr (ch, u1) \<Rightarrow>
          if deref u1 ch = CHR 0x0A
          then next_ch (u1\<lparr>line_u := line_u u1 + 1, start_u := Some (ch + 1)\<rparr>)
          else if deref u1 ch = CHR 0x09 \<or> deref u1 ch = CHR '' ''
          then next_ch u1
          else Inr (ch, u1))"
  by pat_completeness auto
termination
  by (relation "measure (\<lambda>u. Suc (length (data u)) - cursor u)")
     (auto dest!: raw_facts)

declare next_ch.simps [simp del]

text \<open>
  \<open>source\<close> and \<open>token_new\<close>. For a token that is neither text nor string \<open>token_new\<close>
  sets no value: \<open>token.value\<close> of its local \<open>token\<close> stays as it is. No function reads the
  value of such a token (\<open>token_number\<close> sets the one of a number before it returns); the
  model gives it the value \<open>Val_none\<close>.
\<close>

definition slice :: "string \<Rightarrow> nat option \<Rightarrow> nat option \<Rightarrow> string" where
  "slice d b e = (case (b, e) of (Some i, Some j) \<Rightarrow> take (j - i) (drop i d) | _ \<Rightarrow> [])"

definition source_f :: "unit_t \<Rightarrow> nat option \<Rightarrow> nat option \<Rightarrow> source_t" where
  "source_f u b e = \<lparr>line = line_u u, start = start_u u, begin_s = b, end_s = e\<rparr>"

definition token_new :: "unit_t \<Rightarrow> token \<Rightarrow> nat option \<Rightarrow> nat option \<Rightarrow> token_t" where
  "token_new u k b e =
     \<lparr>kind = k, source = source_f u b e,
      value_t = (if k = TOKEN_TEXT \<or> k = TOKEN_STRING then Val_string (slice (data u) b e)
                 else Val_none)\<rparr>"

function token_string :: "unit_t \<Rightarrow> nat \<Rightarrow> error + (token_t \<times> unit_t)" where
  "token_string u b =
     (case raw u of
        Inl e \<Rightarrow> Inl e
      | Inr (ch, u1) \<Rightarrow>
          if deref u1 ch \<noteq> CHR 0x22
          then (if deref u1 ch = CHR 0x0A
                then Inl (Fatal ''Strings can not contain a new line.'')
                else token_string u1 b)
          else Inr (token_new u1 TOKEN_STRING (Some (b + 1)) (Some ch), u1))"
  by pat_completeness auto
termination
  by (relation "measure (\<lambda>(u, b). Suc (length (data u)) - cursor u)")
     (auto dest!: raw_facts)

declare token_string.simps [simp del]

function text_loop :: "unit_t \<Rightarrow> nat \<Rightarrow> error + unit_t" where
  "text_loop u ch =
     (if isalpha (deref u ch) \<or> isdigit (deref u ch) \<or> deref u ch = CHR ''_''
      then (case raw u of Inl e \<Rightarrow> Inl e | Inr (ch', u1) \<Rightarrow> text_loop u1 ch')
      else Inr u)"
  by pat_completeness auto
termination
  by (relation "measure (\<lambda>(u, ch). Suc (length (data u)) - cursor u)")
     (auto dest!: raw_facts)

declare text_loop.simps [simp del]

definition token_text :: "unit_t \<Rightarrow> nat \<Rightarrow> error + (token_t \<times> unit_t)" where
  "token_text u b =
     (case text_loop u b of
        Inl e \<Rightarrow> Inl e
      | Inr u1 \<Rightarrow>
          let u2 = u1\<lparr>cursor := cursor u1 - 1\<rparr>
          in Inr (token_new u2 TOKEN_TEXT (Some b) (Some (cursor u2)), u2))"

function number_loop :: "unit_t \<Rightarrow> y_kind \<Rightarrow> nat \<Rightarrow> error + (y_kind \<times> unit_t)" where
  "number_loop u number ch =
     (if isdigit (deref u ch) \<or> deref u ch = CHR ''_'' \<or> deref u ch = CHR ''.''
      then (case raw u of
              Inl e \<Rightarrow> Inl e
            | Inr (ch', u1) \<Rightarrow>
                if deref u1 ch' = CHR ''.''
                then (if number = Y_DECIMAL
                      then Inl (Fatal ''Duplicate floating-point decimal in number.'')
                      else number_loop u1 Y_DECIMAL ch')
                else number_loop u1 number ch')
      else Inr (number, u))"
  by pat_completeness auto
termination
  by (relation "measure (\<lambda>(u, number, ch). Suc (length (data u)) - cursor u)")
     (auto dest!: raw_facts)

declare number_loop.simps [simp del]

lemma next_ch_facts:
  "next_ch u = Inr (ch, u') \<Longrightarrow>
     cursor u < cursor u' \<and> cursor u \<le> length (data u) \<and> length (data u') = length (data u)
     \<and> ch \<le> length (data u) \<and> length_u u' = length_u u
     \<and> previous u' = previous u \<and> current u' = current u"
proof (induction u arbitrary: ch u' rule: next_ch.induct)
  case (1 u)
  from "1.prems" obtain c u1 where r: "raw u = Inr (c, u1)"
    by (subst (asm) next_ch.simps) (auto split: sum.splits)
  note rf = raw_facts [OF r]
  show ?case
  proof (cases "deref u1 c = CHR 0x0A")
    case True
    with r "1.prems"
    have "next_ch (u1\<lparr>line_u := line_u u1 + 1, start_u := Some (c + 1)\<rparr>) = Inr (ch, u')"
      by (subst (asm) next_ch.simps) simp
    from "1.IH"(1) [OF r refl True this] rf show ?thesis by simp
  next
    case nl: False
    show ?thesis
    proof (cases "deref u1 c = CHR 0x09 \<or> deref u1 c = CHR '' ''")
      case True
      with nl r "1.prems" have "next_ch u1 = Inr (ch, u')"
        by (subst (asm) next_ch.simps) simp
      from "1.IH"(2) [OF r refl nl True this] rf show ?thesis by simp
    next
      case False
      with nl r "1.prems" have "ch = c \<and> u' = u1"
        by (subst (asm) next_ch.simps) auto
      with rf show ?thesis by simp
    qed
  qed
qed

lemma token_string_facts:
  "token_string u b = Inr (t, u') \<Longrightarrow>
     cursor u < cursor u' \<and> cursor u \<le> length (data u) \<and> length (data u') = length (data u)
     \<and> length_u u' = length_u u \<and> previous u' = previous u \<and> current u' = current u"
proof (induction u b arbitrary: t u' rule: token_string.induct)
  case (1 u b)
  from "1.prems" obtain c u1 where r: "raw u = Inr (c, u1)"
    by (subst (asm) token_string.simps) (auto split: sum.splits)
  note rf = raw_facts [OF r]
  show ?case
  proof (cases "deref u1 c \<noteq> CHR 0x22")
    case True
    with r "1.prems" have nl: "deref u1 c \<noteq> CHR 0x0A" and "token_string u1 b = Inr (t, u')"
      by (subst (asm) token_string.simps, simp split: if_splits)+
    from "1.IH" [OF r refl True nl this(2)] rf show ?thesis by simp
  next
    case False
    with r "1.prems" have "u' = u1"
      by (subst (asm) token_string.simps) auto
    with rf show ?thesis by simp
  qed
qed

lemma text_loop_facts:
  "text_loop u ch = Inr u' \<Longrightarrow>
     cursor u \<le> cursor u' \<and> length (data u') = length (data u)
     \<and> (isalpha (deref u ch) \<or> isdigit (deref u ch) \<or> deref u ch = CHR ''_'' \<longrightarrow> cursor u < cursor u')
     \<and> length_u u' = length_u u \<and> previous u' = previous u \<and> current u' = current u"
proof (induction u ch arbitrary: u' rule: text_loop.induct)
  case (1 u ch)
  show ?case
  proof (cases "isalpha (deref u ch) \<or> isdigit (deref u ch) \<or> deref u ch = CHR ''_''")
    case True
    with "1.prems" obtain c u1 where r: "raw u = Inr (c, u1)" and l: "text_loop u1 c = Inr u'"
      by (subst (asm) text_loop.simps) (auto split: sum.splits)
    from "1.IH" [OF True r refl l] raw_facts [OF r] show ?thesis by simp
  next
    case False
    with "1.prems" have "u' = u" by (subst (asm) text_loop.simps) auto
    with False show ?thesis by simp
  qed
qed

lemma number_loop_facts:
  "number_loop u number ch = Inr (k, u') \<Longrightarrow>
     cursor u \<le> cursor u' \<and> length (data u') = length (data u)
     \<and> (isdigit (deref u ch) \<or> deref u ch = CHR ''_'' \<or> deref u ch = CHR ''.'' \<longrightarrow> cursor u < cursor u')
     \<and> length_u u' = length_u u \<and> previous u' = previous u \<and> current u' = current u"
proof (induction u number ch arbitrary: k u' rule: number_loop.induct)
  case (1 u number ch)
  show ?case
  proof (cases "isdigit (deref u ch) \<or> deref u ch = CHR ''_'' \<or> deref u ch = CHR ''.''")
    case True
    with "1.prems" obtain c u1 where r: "raw u = Inr (c, u1)"
      by (subst (asm) number_loop.simps) (auto split: sum.splits)
    note rf = raw_facts [OF r]
    show ?thesis
    proof (cases "deref u1 c = CHR ''.''")
      case dot: True
      with True r "1.prems" have nd: "number \<noteq> Y_DECIMAL"
        and l: "number_loop u1 Y_DECIMAL c = Inr (k, u')"
        by (subst (asm) number_loop.simps, simp split: if_splits)+
      from "1.IH"(1) [OF True r refl dot nd l] rf show ?thesis by simp
    next
      case False
      with True r "1.prems" have l: "number_loop u1 number c = Inr (k, u')"
        by (subst (asm) number_loop.simps) simp
      from "1.IH"(2) [OF True r refl False l] rf show ?thesis by simp
    qed
  next
    case False
    with "1.prems" have "u' = u" by (subst (asm) number_loop.simps) auto
    with False show ?thesis by simp
  qed
qed

text \<open>
  \<open>strtoull(begin, &end, 10)\<close> where \<open>begin\<close> points to a digit: the value of the longest
  run of decimal digits at \<open>begin\<close>, or \<open>ULLONG_MAX\<close> when that is out of range. It reads the
  buffer as it is when the token is complete.
\<close>

definition strtoull_digits :: "string \<Rightarrow> nat \<Rightarrow> string" where
  "strtoull_digits d b = takeWhile isdigit (drop b d)"

definition strtoull :: "string \<Rightarrow> nat \<Rightarrow> 64 word" where
  "strtoull d b =
     (let n = foldl (\<lambda>a c. 10 * a + (of_char c - 48)) (0 :: int) (strtoull_digits d b)
      in if n < 2 ^ 64 then word_of_int n else - 1)"

text \<open>
  \<open>strtod(begin, &end)\<close> where \<open>begin\<close> points to a digit, in the "C" locale. It converts
  the longest text at \<open>begin\<close> that has the form of a decimal floating-point number: digits,
  then a point and digits if a point comes next, then an exponent (\<open>e\<close> or \<open>E\<close>, a sign
  if there is one, digits) if a complete one comes next. (A hexadecimal number would need
  \<open>x\<close> after a first \<open>0\<close>; \<open>strtod\<close> is called for a token whose second byte is a digit,
  \<open>_\<close> or the point.) Like \<open>strtoull\<close> it reads the buffer, not the token: the text it
  converts can end before the token does (at a \<open>_\<close>) or after it (an exponent).
\<close>

definition int_part :: "string \<Rightarrow> string" where
  "int_part r = takeWhile isdigit r"

definition frac_part :: "string \<Rightarrow> string" where
  "frac_part r =
     (case drop (length (int_part r)) r of
        [] \<Rightarrow> []
      | c # r2 \<Rightarrow> if c = CHR ''.'' then c # takeWhile isdigit r2 else [])"

definition exp_part :: "string \<Rightarrow> string" where
  "exp_part r =
     (case drop (length (int_part r) + length (frac_part r)) r of
        [] \<Rightarrow> []
      | e # r1 \<Rightarrow>
          if e = CHR ''e'' \<or> e = CHR ''E''
          then (let sg = (case r1 of [] \<Rightarrow> [] | c # _ \<Rightarrow> if c = CHR ''+'' \<or> c = CHR ''-'' then [c] else []);
                    ds = takeWhile isdigit (drop (length sg) r1)
                in if ds = [] then [] else e # sg @ ds)
          else [])"

definition strtod_text :: "string \<Rightarrow> nat \<Rightarrow> string" where
  "strtod_text d b = (let r = drop b d in int_part r @ frac_part r @ exp_part r)"

definition token_number :: "unit_t \<Rightarrow> nat \<Rightarrow> error + (token_t \<times> unit_t)" where
  "token_number u b =
     (case number_loop u Y_INTEGER b of
        Inl e \<Rightarrow> Inl e
      | Inr (number, u1) \<Rightarrow>
          let u2 = u1\<lparr>cursor := cursor u1 - 1\<rparr>;
              tok = token_new u2 TOKEN_NUMBER (Some b) (Some (cursor u2))
          in if number = Y_INTEGER
             then Inr (tok\<lparr>value_t := Val_integer (strtoull (data u2) b),
                           source := (source tok)\<lparr>end_s := Some (b + length (strtoull_digits (data u2) b))\<rparr>\<rparr>,
                       u2)
             else Inr (tok\<lparr>value_t := Val_decimal (strtod_text (data u2) b),
                           source := (source tok)\<lparr>end_s := Some (b + length (strtod_text (data u2) b))\<rparr>\<rparr>,
                       u2))"

definition lex_token :: "unit_t \<Rightarrow> error + (token_t \<times> unit_t)" where
  "lex_token u =
     (if cursor u > length_u u then Inr (token_new u TOKEN_NONE None None, u)
      else case next_ch u of
        Inl e \<Rightarrow> Inl e
      | Inr (ch, u1) \<Rightarrow>
          let c = deref u1 ch in
          if c = CHR 0x00 then Inr (token_new u1 TOKEN_NONE (Some ch) (Some ch), u1)
          else if c = CHR ''{'' \<or> c = CHR ''}'' \<or> c = CHR ''@''
          then Inr (token_new u1 (of_char c) (Some ch) (Some (ch + 1)), u1)
          else if c = CHR 0x22 then token_string u1 ch
          else if isalpha c \<or> c = CHR ''_'' then token_text u1 ch
          else if isdigit c then token_number u1 ch
          else Inl (Fatal ''Unknown character: %c (%d)''))"

definition lex_next :: "unit_t \<Rightarrow> error + (token_t \<times> unit_t)" where
  "lex_next u =
     (case lex_token u of
        Inl e \<Rightarrow> Inl e
      | Inr (t, u1) \<Rightarrow> Inr (t, u1\<lparr>previous := current u, current := t\<rparr>))"

text \<open>\<open>token_eat\<close> returns \<open>&unit->previous\<close>: the token that was current.\<close>

definition token_eat :: "unit_t \<Rightarrow> error + (token_t \<times> unit_t)" where
  "token_eat u = (case lex_next u of Inl e \<Rightarrow> Inl e | Inr (_, u1) \<Rightarrow> Inr (previous u1, u1))"

definition token_expect :: "unit_t \<Rightarrow> token \<Rightarrow> error + (token_t \<times> unit_t)" where
  "token_expect u k =
     (if kind (current u) = k then token_eat u
      else Inl (Fatal ''Expected token: %d, Recieved token: %d''))"

definition token_consume :: "unit_t \<Rightarrow> token \<Rightarrow> error + (token_t option \<times> unit_t)" where
  "token_consume u k =
     (if kind (current u) = k
      then (case token_eat u of Inl e \<Rightarrow> Inl e | Inr (t, u1) \<Rightarrow> Inr (Some t, u1))
      else Inr (None, u))"

lemma lex_token_facts:
  "lex_token u = Inr (t, u') \<Longrightarrow>
     length (data u') = length (data u) \<and> length_u u' = length_u u
     \<and> previous u' = previous u \<and> current u' = current u
     \<and> ((u' = u \<and> kind t = TOKEN_NONE) \<or> (cursor u < cursor u' \<and> cursor u \<le> length (data u)))"
proof (cases "cursor u > length_u u")
  case True
  assume "lex_token u = Inr (t, u')"
  with True show ?thesis by (auto simp: lex_token_def token_new_def)
next
  case False
  assume a: "lex_token u = Inr (t, u')"
  with False obtain ch u1 where n: "next_ch u = Inr (ch, u1)"
    by (auto simp: lex_token_def split: sum.splits)
  note nf = next_ch_facts [OF n]
  from a False n have
    "(u' = u1) \<or> token_string u1 ch = Inr (t, u')
     \<or> ((isalpha (deref u1 ch) \<or> deref u1 ch = CHR ''_'') \<and> token_text u1 ch = Inr (t, u'))
     \<or> (isdigit (deref u1 ch) \<and> token_number u1 ch = Inr (t, u'))"
    by (auto simp: lex_token_def Let_def split: if_splits)
  then consider (a) "u' = u1" | (b) "token_string u1 ch = Inr (t, u')"
    | (c) "isalpha (deref u1 ch) \<or> deref u1 ch = CHR ''_''" "token_text u1 ch = Inr (t, u')"
    | (d) "isdigit (deref u1 ch)" "token_number u1 ch = Inr (t, u')"
    by blast
  then show ?thesis
  proof cases
    case a with nf show ?thesis by simp
  next
    case b from token_string_facts [OF b] nf show ?thesis by simp
  next
    case c
    from c(2) obtain u2 where l: "text_loop u1 ch = Inr u2" and u': "u' = u2\<lparr>cursor := cursor u2 - 1\<rparr>"
      by (auto simp: token_text_def Let_def split: sum.splits)
    from text_loop_facts [OF l] c(1) nf u' show ?thesis by auto
  next
    case d
    from d(2) obtain k u2 where l: "number_loop u1 Y_INTEGER ch = Inr (k, u2)" and u': "u' = u2\<lparr>cursor := cursor u2 - 1\<rparr>"
      by (auto simp: token_number_def Let_def split: sum.splits if_splits)
    from number_loop_facts [OF l] d(1) nf u' show ?thesis by auto
  qed
qed

text \<open>
  What is left to lex: the bytes from the cursor to the terminating NUL, plus one while the
  current token is not the end of the input. Every token eaten makes it smaller.
\<close>

definition remaining :: "unit_t \<Rightarrow> nat" where
  "remaining u = Suc (length (data u)) - cursor u + (if kind (current u) = TOKEN_NONE then 0 else 1)"

lemma token_eat_remaining:
  "token_eat u = Inr (t, u') \<Longrightarrow> kind (current u) \<noteq> TOKEN_NONE \<Longrightarrow> remaining u' < remaining u"
proof -
  assume a: "token_eat u = Inr (t, u')" and k: "kind (current u) \<noteq> TOKEN_NONE"
  from a obtain t1 u1 where l: "lex_token u = Inr (t1, u1)"
    and u': "u' = u1\<lparr>previous := current u, current := t1\<rparr>"
    by (auto simp: token_eat_def lex_next_def split: sum.splits)
  from lex_token_facts [OF l] u' k show ?thesis
    by (auto simp: remaining_def)
qed

lemma token_eat_length: "token_eat u = Inr (t, u') \<Longrightarrow> length (data u') = length (data u)"
  by (auto simp: token_eat_def lex_next_def split: sum.splits dest!: lex_token_facts)

lemma token_consume_None: "token_consume u k = Inr (None, u') \<Longrightarrow> u' = u \<and> kind (current u) \<noteq> k"
  by (auto simp: token_consume_def split: if_splits sum.splits)

lemma token_consume_Some:
  "token_consume u k = Inr (Some t, u') \<Longrightarrow> kind (current u) = k \<and> token_eat u = Inr (t, u')"
  by (auto simp: token_consume_def split: if_splits sum.splits)

lemma token_expect_Inr:
  "token_expect u k = Inr (t, u') \<Longrightarrow> kind (current u) = k \<and> token_eat u = Inr (t, u')"
  by (auto simp: token_expect_def split: if_splits)

section \<open>Parser\<close>

text \<open>
  \<open>allocate\<close> (sdk/alloc.h) is not among the sources. The parser relies on it to return
  zero-filled memory: it never writes the \<open>next\<close> of a last sibling, the value of a node
  that has none, or the \<open>next\<close> of a last note. So a fresh node has value kind \<open>Y_NONE\<close>
  (0) and null links.

  \<open>token->value.string\<close> of a text token, which \<open>token_new\<close> has set.
\<close>

definition value_string :: "'n y_value \<Rightarrow> string" where
  "value_string v = (case v of Val_string s \<Rightarrow> s | _ \<Rightarrow> [])"

function parse_note :: "unit_t \<Rightarrow> error + (y_note list \<times> unit_t)" where
  "parse_note u =
     (case token_consume u (of_char (CHR ''@'')) of
        Inl e \<Rightarrow> Inl e
      | Inr (None, u1) \<Rightarrow> Inr ([], u1)
      | Inr (Some _, u1) \<Rightarrow>
          (case token_expect u1 TOKEN_TEXT of
             Inl e \<Rightarrow> Inl e
           | Inr (t, u2) \<Rightarrow>
               (case parse_note u2 of
                  Inl e \<Rightarrow> Inl e
                | Inr (ns, u3) \<Rightarrow> Inr (Y_note (value_string (value_t t)) # ns, u3))))"
  by pat_completeness auto
termination
  apply (relation "measure remaining")
   apply simp
  apply (auto dest!: token_consume_Some token_expect_Inr token_eat_remaining simp: TOKEN_NONE_def TOKEN_TEXT_def)
  done

declare parse_note.simps [simp del]

lemma parse_note_remaining: "parse_note u = Inr (ns, u') \<Longrightarrow> remaining u' \<le> remaining u"
proof (induction u arbitrary: ns u' rule: parse_note.induct)
  case (1 u)
  show ?case
  proof (cases "kind (current u) = of_char (CHR ''@'')")
    case False
    with "1.prems" have "u' = u"
      by (subst (asm) parse_note.simps) (auto simp: token_consume_def)
    then show ?thesis by simp
  next
    case True
    with "1.prems" obtain a u1 t u2 ns' where
      c: "token_consume u (of_char (CHR ''@'')) = Inr (Some a, u1)"
      and e: "token_expect u1 TOKEN_TEXT = Inr (t, u2)"
      and r: "parse_note u2 = Inr (ns', u')"
      by (subst (asm) parse_note.simps)
         (auto simp: token_consume_def split: sum.splits option.splits)
    from token_consume_Some [OF c] have "remaining u1 < remaining u"
      by (auto dest!: token_eat_remaining simp: TOKEN_NONE_def)
    moreover from token_expect_Inr [OF e] have "remaining u2 < remaining u1"
      by (auto dest!: token_eat_remaining simp: TOKEN_NONE_def TOKEN_TEXT_def)
    moreover from "1.IH" [OF c refl refl e refl r] have "remaining u' \<le> remaining u2" .
    ultimately show ?thesis by simp
  qed
qed

text \<open>The end of \<open>parse_node\<close>: \<open>node->note = parse_note(unit); return node;\<close>\<close>

definition node_finish :: "string \<Rightarrow> y_node y_value \<Rightarrow> unit_t \<Rightarrow> error + (y_node \<times> unit_t)" where
  "node_finish nm v u =
     (case parse_note u of Inl e \<Rightarrow> Inl e | Inr (ns, u1) \<Rightarrow> Inr (Y_node nm ns v, u1))"

text \<open>
  \<open>parse_node\<close>, and \<open>parse_nodes\<close> for its loop \<open>while (!token_consume(unit, '}'))\<close>,
  which appends each child to the list that becomes \<open>node->value.node\<close>.
\<close>

function parse_node :: "unit_t \<Rightarrow> error + (y_node \<times> unit_t)"
  and parse_nodes :: "unit_t \<Rightarrow> error + (y_node list \<times> unit_t)" where
  "parse_node u =
     (case token_expect u TOKEN_TEXT of
        Inl e \<Rightarrow> Inl e
      | Inr (nm, u1) \<Rightarrow>
          (case token_consume u1 (of_char (CHR ''{'')) of
             Inl e \<Rightarrow> Inl e
           | Inr (Some _, u2) \<Rightarrow>
               (case parse_nodes u2 of
                  Inl e \<Rightarrow> Inl e
                | Inr (cs, u3) \<Rightarrow> node_finish (value_string (value_t nm)) (Val_node cs) u3)
           | Inr (None, u2) \<Rightarrow>
               (case token_consume u2 TOKEN_NUMBER of
                  Inl e \<Rightarrow> Inl e
                | Inr (Some t, u3) \<Rightarrow> node_finish (value_string (value_t nm)) (value_t t) u3
                | Inr (None, u3) \<Rightarrow>
                    (case token_consume u3 TOKEN_STRING of
                       Inl e \<Rightarrow> Inl e
                     | Inr (Some t, u4) \<Rightarrow> node_finish (value_string (value_t nm)) (value_t t) u4
                     | Inr (None, u4) \<Rightarrow> node_finish (value_string (value_t nm)) Val_none u4))))"
| "parse_nodes u =
     (case token_consume u (of_char (CHR ''}'')) of
        Inl e \<Rightarrow> Inl e
      | Inr (Some _, u1) \<Rightarrow> Inr ([], u1)
      | Inr (None, u1) \<Rightarrow>
          (case token_consume u1 TOKEN_NONE of
             Inl e \<Rightarrow> Inl e
           | Inr (Some _, u2) \<Rightarrow> Inl (Fatal ''Expecting ending to node list.'')
           | Inr (None, u2) \<Rightarrow>
               (case parse_node u2 of
                  Inl e \<Rightarrow> Inl e
                | Inr (n, u3) \<Rightarrow>
                    (case parse_nodes u3 of
                       Inl e \<Rightarrow> Inl e
                     | Inr (ns, u4) \<Rightarrow> Inr (n # ns, u4)))))"
  by pat_completeness auto

lemma token_eat_remaining_le: "token_eat u = Inr (t, u') \<Longrightarrow> remaining u' \<le> remaining u"
proof -
  assume a: "token_eat u = Inr (t, u')"
  from a obtain t1 u1 where l: "lex_token u = Inr (t1, u1)"
    and u': "u' = u1\<lparr>previous := current u, current := t1\<rparr>"
    by (auto simp: token_eat_def lex_next_def split: sum.splits)
  from lex_token_facts [OF l] u' show ?thesis
    by (auto simp: remaining_def)
qed

lemma token_consume_remaining_le: "token_consume u k = Inr (x, u') \<Longrightarrow> remaining u' \<le> remaining u"
  by (auto simp: token_consume_def split: if_splits sum.splits dest: token_eat_remaining_le)

lemma node_finish_remaining: "node_finish nm v u = Inr (n, u') \<Longrightarrow> remaining u' \<le> remaining u"
  by (auto simp: node_finish_def split: sum.splits dest: parse_note_remaining)

lemma parse_remaining_dom:
  "parse_node_parse_nodes_dom (Inl u) \<Longrightarrow>
     (\<forall>n u'. parse_node u = Inr (n, u') \<longrightarrow> remaining u' < remaining u)"
  "parse_node_parse_nodes_dom (Inr w) \<Longrightarrow>
     (\<forall>ns w'. parse_nodes w = Inr (ns, w') \<longrightarrow> remaining w' < remaining w)"
proof (induct rule: parse_node_parse_nodes.pinduct)
  case (1 u)
  show ?case
  proof (intro allI impI)
    fix n u' assume a: "parse_node u = Inr (n, u')"
    from a obtain nm u1 where e: "token_expect u TOKEN_TEXT = Inr (nm, u1)"
      by (subst (asm) parse_node.psimps [OF "1.hyps"(1)]) (auto split: sum.splits)
    from token_expect_Inr [OF e] have r1: "remaining u1 < remaining u"
      by (auto dest!: token_eat_remaining simp: TOKEN_NONE_def TOKEN_TEXT_def)
    show "remaining u' < remaining u"
    proof (cases "kind (current u1) = of_char (CHR ''{'')")
      case True
      with a e obtain x u2 cs u3 where
        c: "token_consume u1 (of_char (CHR ''{'')) = Inr (Some x, u2)"
        and p: "parse_nodes u2 = Inr (cs, u3)"
        and f: "node_finish (value_string (value_t nm)) (Val_node cs) u3 = Inr (n, u')"
        by (subst (asm) parse_node.psimps [OF "1.hyps"(1)])
           (auto simp: token_consume_def split: sum.splits)
      from "1.hyps"(2) [OF e refl c refl refl] p have "remaining u3 < remaining u2" by blast
      with token_consume_remaining_le [OF c] node_finish_remaining [OF f] r1
      show ?thesis by simp
    next
      case False
      then have c: "token_consume u1 (of_char (CHR ''{'')) = Inr (None, u1)"
        by (simp add: token_consume_def)
      from a e c have "remaining u' \<le> remaining u1"
        by (subst (asm) parse_node.psimps [OF "1.hyps"(1)])
           (auto split: sum.splits option.splits
                 dest!: token_consume_remaining_le node_finish_remaining)
      with r1 show ?thesis by simp
    qed
  qed
next
  case (2 w)
  show ?case
  proof (intro allI impI)
    fix ns w' assume a: "parse_nodes w = Inr (ns, w')"
    show "remaining w' < remaining w"
    proof (cases "kind (current w) = of_char (CHR ''}'')")
      case True
      with a obtain x where c: "token_consume w (of_char (CHR ''}'')) = Inr (Some x, w')"
        by (subst (asm) parse_nodes.psimps [OF "2.hyps"(1)])
           (auto simp: token_consume_def split: sum.splits)
      from token_consume_Some [OF c] show ?thesis
        by (auto dest!: token_eat_remaining simp: TOKEN_NONE_def)
    next
      case False
      then have c: "token_consume w (of_char (CHR ''}'')) = Inr (None, w)"
        by (simp add: token_consume_def)
      with a have c2: "token_consume w TOKEN_NONE = Inr (None, w)"
        by (subst (asm) parse_nodes.psimps [OF "2.hyps"(1)])
           (auto split: sum.splits option.splits dest: token_consume_None)
      with a c obtain n w3 ns' where p: "parse_node w = Inr (n, w3)"
        and q: "parse_nodes w3 = Inr (ns', w')"
        by (subst (asm) parse_nodes.psimps [OF "2.hyps"(1)])
           (auto split: sum.splits)
      from "2.hyps"(2) [OF c refl refl c2 refl refl] p have "remaining w3 < remaining w" by blast
      moreover from "2.hyps"(3) [OF c refl refl c2 refl refl p refl] q
      have "remaining w' < remaining w3" by blast
      ultimately show ?thesis by simp
    qed
  qed
qed

termination parse_node
  apply (relation "measure (\<lambda>x. case x of Inl u \<Rightarrow> 2 * remaining u | Inr u \<Rightarrow> 2 * remaining u + 1)")
     apply simp
    apply (auto dest!: token_expect_Inr token_consume_Some token_consume_None token_eat_remaining
                 simp: TOKEN_NONE_def TOKEN_TEXT_def)[1]
   apply (auto dest!: token_consume_None)[1]
  apply (auto dest!: token_consume_None dest: parse_remaining_dom(1) [rule_format])[1]
  done

declare parse_node.simps [simp del]
declare parse_nodes.simps [simp del]

definition parse_unit :: "unit_t \<Rightarrow> error + (y_node \<times> unit_t)" where
  "parse_unit u =
     (case parse_node u of
        Inl e \<Rightarrow> Inl e
      | Inr (node, u1) \<Rightarrow>
          (case token_expect u1 TOKEN_NONE of Inl e \<Rightarrow> Inl e | Inr (_, u2) \<Rightarrow> Inr (node, u2)))"

section \<open>Context, loader and queries\<close>

text \<open>
  \<open>yctx_t\<close>. \<open>y_create\<close> sets \<open>ctx.heads = &ctx.root\<close> for its local variable \<open>ctx\<close> and
  returns \<open>ctx\<close> by value: in the context the caller receives, \<open>heads\<close> is the address of
  the \<open>root\<close> of a variable that is gone (\<open>Dead_root\<close>), not of the caller's \<open>root\<close>. No
  function sets \<open>heads\<close> to the caller's \<open>root\<close>, so the \<open>next\<close> of that \<open>root\<close> is never
  written and stays null.

  \<open>loaded\<close> is the list of the roots that \<open>y_load\<close> has linked: the first root loaded and
  what follows it by \<open>next\<close>. After a load \<open>heads\<close> points to a node of that list and is
  its position there (\<open>Loaded k\<close>). \<open>stray_store\<close> is not a member of the struct: it
  records that a store has been made through the dangling \<open>heads\<close>.
\<close>

datatype heads_ptr = Dead_root | Loaded nat

record yctx_t =
  root :: y_node
  loaded :: "y_node list"
  heads :: heads_ptr
  units :: "unit_t list"
  stray_store :: bool

text \<open>A zero-filled token and a zero-filled unit (\<open>unit_t unit = { 0 }\<close>).\<close>

definition token_zero :: token_t where
  "token_zero = \<lparr>kind = TOKEN_NONE,
                  source = \<lparr>line = 0, start = None, begin_s = None, end_s = None\<rparr>,
                  value_t = Val_none\<rparr>"

definition unit_zero :: unit_t where
  "unit_zero = \<lparr>data = [], start_u = None, length_u = 0, cursor = 0, line_u = 0,
                 previous = token_zero, current = token_zero, read_only = False\<rparr>"

definition y_create :: yctx_t where
  "y_create = \<lparr>root = Y_node [] [] Val_none, loaded = [], heads = Dead_root, units = [],
                stray_store = False\<rparr>"

text \<open>
  \<open>y_load\<close>, given the bytes that \<open>fs_read\<close> returns for the file (the file system is not
  part of the library; the buffer it allocates can be stored into). The statement
  \<open>y->heads = y->heads->next = head\<close> makes the new root the successor of the node \<open>heads\<close>
  points to, then moves \<open>heads\<close> to the new root.

  In the first load on a context \<open>heads\<close> is \<open>Dead_root\<close>, and the store to
  \<open>y->heads->next\<close> is a store through a dangling pointer: undefined in C. The program as
  compiled overwrites bytes of the stack that no later statement of the library reads, and
  goes on; so does the model, which sets \<open>stray_store\<close>. The store reaches no object of the
  context: the new root starts the list \<open>loaded\<close>, and the \<open>root\<close> of the context is not
  linked to it.
\<close>

definition y_load :: "yctx_t \<Rightarrow> string \<Rightarrow> error + (y_node \<times> yctx_t)" where
  "y_load y bytes =
     (let unit0 = unit_zero\<lparr>data := bytes, length_u := length bytes, start_u := Some 0\<rparr> in
      case lex_next unit0 of
        Inl e \<Rightarrow> Inl e
      | Inr (_, unit1) \<Rightarrow>
          (case parse_unit unit1 of
             Inl e \<Rightarrow> Inl e
           | Inr (head, unit2) \<Rightarrow>
               Inr (head,
                    (case heads y of
                       Dead_root \<Rightarrow> y\<lparr>loaded := [head], heads := Loaded 0, stray_store := True\<rparr>
                     | Loaded k \<Rightarrow> y\<lparr>loaded := take (Suc k) (loaded y) @ [head],
                                        heads := Loaded (Suc k)\<rparr>)
                    \<lparr>units := units y @ [unit2]\<rparr>)))"

text \<open>
  \<open>strncmp\<close> on two slices: at most \<open>n\<close> bytes are compared and the comparison stops after
  a NUL. Its callers pass two slices of \<open>n\<close> bytes each, so the end of a list is not reached.
\<close>

fun strncmp :: "string \<Rightarrow> string \<Rightarrow> nat \<Rightarrow> int" where
  "strncmp (x # xs) (y # ys) (Suc n) =
     (if x \<noteq> y then int (of_char x) - int (of_char y)
      else if x = CHR 0x00 then 0
      else strncmp xs ys n)"
| "strncmp _ _ _ = 0"

text \<open>
  Whether the \<open>f64\<close> that \<open>strtod\<close> returns for a decimal text has all bits zero, that is,
  is \<open>+0.0\<close>. \<open>strtod\<close> rounds to the nearest double, ties to even: the result is \<open>+0.0\<close>
  when the number written is 0, or is at most 2 to the power -1075, half of the least
  positive double.
  With \<open>m\<close> the digits read as an integer and \<open>e\<close> the exponent less the number of digits
  after the point, the number written is \<open>m\<close> times 10 to the power \<open>e\<close>.
\<close>

definition digits_value :: "string \<Rightarrow> int" where
  "digits_value ds = foldl (\<lambda>a c. 10 * a + (of_char c - 48)) 0 ds"

definition exp_value :: "string \<Rightarrow> int" where
  "exp_value ep =
     (case ep of
        [] \<Rightarrow> 0
      | e # r \<Rightarrow>
          (case r of
             [] \<Rightarrow> 0
           | c # ds \<Rightarrow>
               if c = CHR ''-'' then - digits_value ds
               else if c = CHR ''+'' then digits_value ds
               else digits_value r))"

definition f64_zero :: "string \<Rightarrow> bool" where
  "f64_zero txt =
     (let fd = tl (frac_part txt);
          m = digits_value (int_part txt @ fd);
          e = exp_value (exp_part txt) - int (length fd)
      in m = 0 \<or> (e < 0 \<and> m * 2 ^ 1075 \<le> 10 ^ nat (- e)))"

text \<open>
  \<open>it->value.node\<close> reads the \<open>node\<close> member of the union whatever the kind is (pointers,
  \<open>u64\<close> and \<open>f64\<close> have 64 bits and share their bytes). For a container it is the child
  list, for a node without value it is null (the node is zero-filled). For a scalar the
  bytes of the scalar are read as a pointer: null for the Integer 0 and for the Decimal
  \<open>+0.0\<close>, otherwise an address that is not a node (the Integer itself, the bit pattern
  of the Decimal, the address of a String's bytes): \<open>Wild\<close>. \<open>Dangling\<close> is the \<open>heads\<close>
  of a context on which nothing has been loaded.
\<close>

datatype node_ptr = Nodes "y_node list" | Wild | Dangling

definition value_node :: "y_node y_value \<Rightarrow> node_ptr" where
  "value_node v =
     (case v of
        Val_none \<Rightarrow> Nodes []
      | Val_node cs \<Rightarrow> Nodes cs
      | Val_integer n \<Rightarrow> if n = 0 then Nodes [] else Wild
      | Val_string s \<Rightarrow> Wild
      | Val_decimal s \<Rightarrow> if f64_zero s then Nodes [] else Wild)"

text \<open>The \<open>for\<close> loop of \<open>y_find\<close>: the first node of the list whose name is the segment.\<close>

fun find_scan :: "string \<Rightarrow> y_node list \<Rightarrow> y_node option" where
  "find_scan s [] = None"
| "find_scan s (it # rest) =
     (if length s = length (name it) \<and> strncmp s (name it) (length (name it)) = 0
      then Some it
      else find_scan s rest)"

text \<open>
  The \<open>while\<close> loop of \<open>y_find\<close>. The unit is returned with the result, to show how far the
  path has been read. When the loop ends because the current token is not a text, the
  function ends without a \<open>return\<close>. The \<open>for\<close> loop reads \<open>it->name\<close> as soon as \<open>it\<close>
  is not null: that is the dereference of \<open>current\<close>, whatever it points to.
\<close>

function find_loop :: "unit_t \<Rightarrow> node_ptr \<Rightarrow> error + (y_node option \<times> unit_t)" where
  "find_loop u cur =
     (case token_consume u TOKEN_TEXT of
        Inl e \<Rightarrow> Inl e
      | Inr (None, u1) \<Rightarrow> Inl No_return
      | Inr (Some temp, u1) \<Rightarrow>
          (case cur of
             Wild \<Rightarrow> Inl Wild_pointer
           | Dangling \<Rightarrow> Inl Dangling_pointer
           | Nodes ns \<Rightarrow>
               (case find_scan (value_string (value_t temp)) ns of
                  None \<Rightarrow> Inr (None, u1)
                | Some it \<Rightarrow>
                    if kind (current u1) = TOKEN_NONE then Inr (Some it, u1)
                    else find_loop u1 (value_node (value_n it)))))"
  by pat_completeness auto
termination
  apply (relation "measure (\<lambda>(u, cur). remaining u)")
   apply simp
  apply (auto dest!: token_consume_Some token_eat_remaining simp: TOKEN_NONE_def TOKEN_TEXT_def)
  done

declare find_loop.simps [simp del]

text \<open>
  A path is a C string: its bytes are those before the first NUL. \<open>path_unit\<close> is the
  unit \<open>y_find\<close> makes of it: \<open>{ .data = (char *) path, .length = strlen(path) }\<close>. The
  cast removes the \<open>const\<close> of \<open>cstr\<close>, and the lexer stores into \<open>data\<close> when it meets a
  comment marker. \<open>lit\<close> tells whether the caller's path is a string literal (a const
  object, as in every call of the example and of the header's comment) or an array that
  can be stored into; in the second case the store changes the caller's array, which is
  the \<open>data\<close> of the unit that \<open>y_find_unit\<close> returns.
\<close>

definition cstr :: "string \<Rightarrow> string" where
  "cstr s = takeWhile (\<lambda>c. c \<noteq> CHR 0x00) s"

definition strlen :: "string \<Rightarrow> nat" where
  "strlen s = length (cstr s)"

definition path_unit :: "bool \<Rightarrow> string \<Rightarrow> unit_t" where
  "path_unit lit path = unit_zero\<lparr>data := cstr path, length_u := strlen path, read_only := lit\<rparr>"

text \<open>\<open>y->heads\<close>, the pointer \<open>y_find\<close> starts from.\<close>

definition heads_nodes :: "yctx_t \<Rightarrow> node_ptr" where
  "heads_nodes y = (case heads y of Dead_root \<Rightarrow> Dangling | Loaded k \<Rightarrow> Nodes (drop k (loaded y)))"

definition y_find_unit :: "bool \<Rightarrow> yctx_t \<Rightarrow> string \<Rightarrow> error + (y_node option \<times> unit_t)" where
  "y_find_unit lit y path =
     (let unit0 = path_unit lit path;
          current0 = heads_nodes y in
      case lex_next unit0 of
        Inl e \<Rightarrow> Inl e
      | Inr (_, unit1) \<Rightarrow> find_loop unit1 current0)"

text \<open>\<open>y_find\<close> called with a string literal, and its result alone.\<close>

definition y_find :: "yctx_t \<Rightarrow> string \<Rightarrow> error + y_node option" where
  "y_find y path = (case y_find_unit True y path of Inl e \<Rightarrow> Inl e | Inr (r, _) \<Rightarrow> Inr r)"

text \<open>
  \<open>y_has\<close> returns \<open>it\<close>, a pointer to a note of the list \<open>node->note\<close>. Two notes of a
  list can have the same name, so the pointer is not the name: it is the place in the list,
  given here as the list from that note on (the note \<open>it\<close> points to and what follows it
  by \<open>next\<close>).
\<close>

fun has_scan :: "string \<Rightarrow> y_note list \<Rightarrow> y_note list option" where
  "has_scan q [] = None"
| "has_scan q (it # rest) =
     (if length (note_name it) = length q \<and> strncmp (note_name it) q (length q) = 0
      then Some (it # rest)
      else has_scan q rest)"

definition y_has :: "y_node \<Rightarrow> string \<Rightarrow> y_note list option" where
  "y_has node q = has_scan q (note_n node)"

section \<open>Notions used in the statements\<close>

text \<open>
  Helpers for the statements below: the node \<open>y_load\<close> returns on a fresh context, and
  loading several units one after the other into the same context.
\<close>

definition y_load_node :: "string \<Rightarrow> error + y_node" where
  "y_load_node bytes = (case y_load y_create bytes of Inl e \<Rightarrow> Inl e | Inr (head, _) \<Rightarrow> Inr head)"

fun y_load_all :: "yctx_t \<Rightarrow> string list \<Rightarrow> error + yctx_t" where
  "y_load_all y [] = Inr y"
| "y_load_all y (bytes # rest) =
     (case y_load y bytes of Inl e \<Rightarrow> Inl e | Inr (_, y1) \<Rightarrow> y_load_all y1 rest)"

text \<open>What the lexer puts into a token: a value of the kind the token kind announces.\<close>

definition token_value_ok :: "token_t \<Rightarrow> bool" where
  "token_value_ok t =
     (if kind t = TOKEN_NUMBER then value_kind (value_t t) = Y_INTEGER \<or> value_kind (value_t t) = Y_DECIMAL
      else if kind t = TOKEN_STRING \<or> kind t = TOKEN_TEXT then value_kind (value_t t) = Y_STRING
      else value_t t = Val_none)"

text \<open>The child list of a node, and the nodes of a tree.\<close>

definition node_children :: "y_node \<Rightarrow> y_node list" where
  "node_children n = (case value_n n of Val_node cs \<Rightarrow> cs | _ \<Rightarrow> [])"

primrec subnodes :: "y_node \<Rightarrow> y_node set" where
  "subnodes (Y_node nm ns v) = insert (Y_node nm ns v) (\<Union> (set_y_value (map_y_value subnodes v)))"

text \<open>
  Paths of the supported form: identifiers (a letter or \<open>_\<close>, then letters, digits and
  \<open>_\<close>) separated by one blank. \<open>rest_of ss\<close> is what follows the first segment.
\<close>

definition ident_char :: "char \<Rightarrow> bool" where
  "ident_char c = (isalpha c \<or> isdigit c \<or> c = CHR ''_'')"

definition ident :: "string \<Rightarrow> bool" where
  "ident s = (s \<noteq> [] \<and> (isalpha (hd s) \<or> hd s = CHR ''_'') \<and> list_all ident_char s)"

fun rest_of :: "string list \<Rightarrow> string" where
  "rest_of [] = []"
| "rest_of (s # ss) = CHR '' '' # s @ rest_of ss"

definition path_of :: "string list \<Rightarrow> string" where
  "path_of segs = (case segs of [] \<Rightarrow> [] | s # ss \<Rightarrow> s @ rest_of ss)"

text \<open>The text token for the bytes \<open>s\<close> at offset \<open>b\<close>.\<close>

definition text_token :: "unit_t \<Rightarrow> nat \<Rightarrow> string \<Rightarrow> token_t" where
  "text_token u b s =
     \<lparr>kind = TOKEN_TEXT, source = source_f u (Some b) (Some (b + length s)), value_t = Val_string s\<rparr>"

text \<open>
  The loop of \<open>y_find\<close> on the segments of a path, without the lexer: the result, the
  segment whose scan ended the search, and the segments after it, which were not consumed.
  \<open>lookahead u todo\<close> says that the current token of \<open>u\<close> is the first of them, or the
  end of the path when there is none.
\<close>

fun find_segments :: "node_ptr \<Rightarrow> string list \<Rightarrow> error + (y_node option \<times> string \<times> string list)" where
  "find_segments cur [] = Inl No_return"
| "find_segments Wild (s # ss) = Inl Wild_pointer"
| "find_segments Dangling (s # ss) = Inl Dangling_pointer"
| "find_segments (Nodes ns) (s # ss) =
     (case find_scan s ns of
        None \<Rightarrow> Inr (None, s, ss)
      | Some it \<Rightarrow>
          if ss = [] then Inr (Some it, s, [])
          else find_segments (value_node (value_n it)) ss)"

definition lookahead :: "unit_t \<Rightarrow> string list \<Rightarrow> bool" where
  "lookahead u todo =
     (case todo of
        [] \<Rightarrow> kind (current u) = TOKEN_NONE
      | t # _ \<Rightarrow> kind (current u) = TOKEN_TEXT \<and> value_t (current u) = Val_string t)"

text \<open>
  Source text of the forms the specification writes: \<open>name\<close>, \<open>name { ... }\<close>, \<open>name 42\<close>,
  \<open>name 4.2\<close>, \<open>name "s"\<close>, each with notes \<open>@a @b\<close> after it. A \<open>src_node\<close> is such a
  piece of text as a tree: the name, what is written for the value, the names of the
  notes. \<open>node_text\<close> is the text (one blank between the parts, none after \<open>@\<close>),
  \<open>node_of\<close> the node that the text is to denote, \<open>node_wf\<close> says that the names are
  identifiers, the numbers are made of digits (at least one before the point) and a
  string holds no quote, no newline and no comment marker.
\<close>

datatype 'n src_value = S_none | S_list "'n list" | S_int string | S_dec string string | S_str string

datatype src_node = S_node (s_name: string) (s_value: "src_node src_value") (s_notes: "string list")

fun value_text :: "string src_value \<Rightarrow> string" where
  "value_text S_none = []"
| "value_text (S_list cs) = '' {'' @ concat (map (\<lambda>c. CHR '' '' # c) cs) @ '' }''"
| "value_text (S_int ds) = CHR '' '' # ds"
| "value_text (S_dec ds fs) = CHR '' '' # ds @ CHR ''.'' # fs"
| "value_text (S_str s) = CHR '' '' # CHR 0x22 # s @ [CHR 0x22]"

definition notes_text :: "string list \<Rightarrow> string" where
  "notes_text ns = concat (map (\<lambda>a. '' @'' @ a) ns)"

primrec node_text :: "src_node \<Rightarrow> string" where
  "node_text (S_node nm v ns) = nm @ value_text (map_src_value node_text v) @ notes_text ns"

fun value_of :: "y_node src_value \<Rightarrow> y_node y_value" where
  "value_of S_none = Val_none"
| "value_of (S_list cs) = Val_node cs"
| "value_of (S_int ds) = Val_integer (strtoull ds 0)"
| "value_of (S_dec ds fs) = Val_decimal (ds @ CHR ''.'' # fs)"
| "value_of (S_str s) = Val_string s"

primrec node_of :: "src_node \<Rightarrow> y_node" where
  "node_of (S_node nm v ns) = Y_node nm (map Y_note ns) (value_of (map_src_value node_of v))"

fun no_marker :: "string \<Rightarrow> bool" where
  "no_marker (a # b # r) = (\<not> (a = CHR ''/'' \<and> b = CHR ''/'') \<and> no_marker (b # r))"
| "no_marker _ = True"

definition str_body :: "string \<Rightarrow> bool" where
  "str_body s = (CHR 0x22 \<notin> set s \<and> CHR 0x0A \<notin> set s \<and> no_marker s)"

fun value_wf :: "bool src_value \<Rightarrow> bool" where
  "value_wf S_none = True"
| "value_wf (S_list bs) = list_all id bs"
| "value_wf (S_int ds) = (ds \<noteq> [] \<and> list_all isdigit ds)"
| "value_wf (S_dec ds fs) = (ds \<noteq> [] \<and> list_all isdigit ds \<and> list_all isdigit fs)"
| "value_wf (S_str s) = str_body s"

primrec node_wf :: "src_node \<Rightarrow> bool" where
  "node_wf (S_node nm v ns) = (ident nm \<and> value_wf (map_src_value node_wf v) \<and> list_all ident ns)"

text \<open>
  The same text as a sequence of items, one for each token the lexer is to find; the flag
  of an item says whether a blank is written before it. \<open>render\<close> is the text of a
  sequence. In \<open>items_ok\<close> every item is well formed, and a text or a number is followed
  by a blank or by the end.
\<close>

datatype item = I_text string | I_int string | I_dec string string | I_str string
  | I_open | I_close | I_at

fun item_text :: "item \<Rightarrow> string" where
  "item_text (I_text s) = s"
| "item_text (I_int ds) = ds"
| "item_text (I_dec ds fs) = ds @ CHR ''.'' # fs"
| "item_text (I_str s) = CHR 0x22 # s @ [CHR 0x22]"
| "item_text I_open = ''{''"
| "item_text I_close = ''}''"
| "item_text I_at = ''@''"

fun item_kind :: "item \<Rightarrow> token" where
  "item_kind (I_text s) = TOKEN_TEXT"
| "item_kind (I_int ds) = TOKEN_NUMBER"
| "item_kind (I_dec ds fs) = TOKEN_NUMBER"
| "item_kind (I_str s) = TOKEN_STRING"
| "item_kind I_open = of_char (CHR ''{'')"
| "item_kind I_close = of_char (CHR ''}'')"
| "item_kind I_at = of_char (CHR ''@'')"

fun item_value :: "item \<Rightarrow> y_node y_value" where
  "item_value (I_text s) = Val_string s"
| "item_value (I_int ds) = Val_integer (strtoull ds 0)"
| "item_value (I_dec ds fs) = Val_decimal (ds @ CHR ''.'' # fs)"
| "item_value (I_str s) = Val_string s"
| "item_value I_open = Val_none"
| "item_value I_close = Val_none"
| "item_value I_at = Val_none"

fun item_wf :: "item \<Rightarrow> bool" where
  "item_wf (I_text s) = ident s"
| "item_wf (I_int ds) = (ds \<noteq> [] \<and> list_all isdigit ds)"
| "item_wf (I_dec ds fs) = (ds \<noteq> [] \<and> list_all isdigit ds \<and> list_all isdigit fs)"
| "item_wf (I_str s) = str_body s"
| "item_wf I_open = True"
| "item_wf I_close = True"
| "item_wf I_at = True"

fun needs_blank :: "item \<Rightarrow> bool" where
  "needs_blank (I_text s) = True"
| "needs_blank (I_int ds) = True"
| "needs_blank (I_dec ds fs) = True"
| "needs_blank _ = False"

fun render :: "(bool \<times> item) list \<Rightarrow> string" where
  "render [] = []"
| "render ((sp, i) # r) = (if sp then [CHR '' ''] else []) @ item_text i @ render r"

fun items_ok :: "(bool \<times> item) list \<Rightarrow> bool" where
  "items_ok [] = True"
| "items_ok ((sp, i) # r) =
     (item_wf i \<and> (needs_blank i \<longrightarrow> (case r of [] \<Rightarrow> True | (sp', _) # _ \<Rightarrow> sp')) \<and> items_ok r)"

definition first_kind :: "(bool \<times> item) list \<Rightarrow> token" where
  "first_kind its = (case its of [] \<Rightarrow> TOKEN_NONE | (sp, i) # _ \<Rightarrow> item_kind i)"

definition blank_first :: "(bool \<times> item) list \<Rightarrow> bool" where
  "blank_first its = (case its of [] \<Rightarrow> True | (sp, i) # _ \<Rightarrow> sp)"

fun value_items :: "(bool \<times> item) list src_value \<Rightarrow> (bool \<times> item) list" where
  "value_items S_none = []"
| "value_items (S_list cs) = (True, I_open) # concat cs @ [(True, I_close)]"
| "value_items (S_int ds) = [(True, I_int ds)]"
| "value_items (S_dec ds fs) = [(True, I_dec ds fs)]"
| "value_items (S_str s) = [(True, I_str s)]"

definition notes_items :: "string list \<Rightarrow> (bool \<times> item) list" where
  "notes_items ns = concat (map (\<lambda>a. [(True, I_at), (False, I_text a)]) ns)"

primrec node_items :: "src_node \<Rightarrow> (bool \<times> item) list" where
  "node_items (S_node nm v ns)
     = (True, I_text nm) # value_items (map_src_value node_items v) @ notes_items ns"

definition tail_items :: "src_node \<Rightarrow> (bool \<times> item) list" where
  "tail_items t = value_items (map_src_value node_items (s_value t)) @ notes_items (s_notes t)"

text \<open>
  The state of a unit while a sequence of items is read. \<open>unread u rest\<close>: the bytes from
  the cursor on are \<open>rest\<close>. \<open>st u its\<close>: the current token is the first item of \<open>its\<close> and
  the text of the others is unread; with no item left the current token is the end of the
  input and the cursor is past it.
\<close>

definition unread :: "unit_t \<Rightarrow> string \<Rightarrow> bool" where
  "unread u rest =
     (drop (cursor u) (data u) = rest \<and> cursor u \<le> length (data u) \<and> length_u u = length (data u))"

fun st :: "unit_t \<Rightarrow> (bool \<times> item) list \<Rightarrow> bool" where
  "st u [] = (kind (current u) = TOKEN_NONE \<and> length_u u < cursor u)"
| "st u ((sp, i) # r) =
     (kind (current u) = item_kind i \<and> value_t (current u) = item_value i \<and> unread u (render r))"

text \<open>
  What may follow the text of a node without being taken for a part of it: not a note,
  and after a bare name no brace, number or string.
\<close>

definition follow_ok :: "src_node \<Rightarrow> (bool \<times> item) list \<Rightarrow> bool" where
  "follow_ok t its =
     (blank_first its \<and> first_kind its \<noteq> of_char (CHR ''@'')
      \<and> (s_value t = S_none \<and> s_notes t = [] \<longrightarrow>
            first_kind its \<noteq> of_char (CHR ''{'') \<and> first_kind its \<noteq> TOKEN_NUMBER
            \<and> first_kind its \<noteq> TOKEN_STRING))"

text \<open>The messages of the lexer's fatal errors.\<close>

definition lexical_error :: "string \<Rightarrow> bool" where
  "lexical_error m =
     (m = ''Strings can not contain a new line.''
      \<or> m = ''Duplicate floating-point decimal in number.''
      \<or> m = ''Unknown character: %c (%d)'')"

section \<open>Facts about the lexer and the parser\<close>

lemma token_string_value:
  "token_string u b = Inr (t, u') \<Longrightarrow> kind t = TOKEN_STRING \<and> (\<exists>s. value_t t = Val_string s)"
proof (induction u b arbitrary: t u' rule: token_string.induct)
  case (1 u b)
  from "1.prems" obtain c u1 where r: "raw u = Inr (c, u1)"
    by (subst (asm) token_string.simps) (auto split: sum.splits)
  show ?case
  proof (cases "deref u1 c \<noteq> CHR 0x22")
    case True
    with r "1.prems" have nl: "deref u1 c \<noteq> CHR 0x0A" and "token_string u1 b = Inr (t, u')"
      by (subst (asm) token_string.simps, simp split: if_splits)+
    from "1.IH" [OF r refl True nl this(2)] show ?thesis .
  next
    case False
    with r "1.prems" have "t = token_new u1 TOKEN_STRING (Some (b + 1)) (Some c)"
      by (subst (asm) token_string.simps) auto
    then show ?thesis by (simp add: token_new_def)
  qed
qed

lemma token_text_value:
  "token_text u b = Inr (t, u') \<Longrightarrow> kind t = TOKEN_TEXT \<and> (\<exists>s. value_t t = Val_string s)"
  by (auto simp: token_text_def token_new_def Let_def split: sum.splits)

lemma token_number_value:
  "token_number u b = Inr (t, u') \<Longrightarrow>
     kind t = TOKEN_NUMBER \<and> ((\<exists>n. value_t t = Val_integer n) \<or> (\<exists>s. value_t t = Val_decimal s))"
  by (auto simp: token_number_def token_new_def Let_def split: sum.splits if_splits)

lemma lex_token_value: "lex_token u = Inr (t, u') \<Longrightarrow> token_value_ok t"
proof (cases "cursor u > length_u u")
  case True
  assume "lex_token u = Inr (t, u')"
  with True show ?thesis
    by (auto simp: lex_token_def token_new_def token_value_ok_def
                   TOKEN_NONE_def TOKEN_NUMBER_def TOKEN_STRING_def TOKEN_TEXT_def)
next
  case False
  assume a: "lex_token u = Inr (t, u')"
  with False obtain ch u1 where n: "next_ch u = Inr (ch, u1)"
    by (auto simp: lex_token_def split: sum.splits)
  from a False n have
    "t = token_new u1 TOKEN_NONE (Some ch) (Some ch)
     \<or> t = token_new u1 123 (Some ch) (Some (ch + 1))
     \<or> t = token_new u1 125 (Some ch) (Some (ch + 1))
     \<or> t = token_new u1 64 (Some ch) (Some (ch + 1))
     \<or> token_string u1 ch = Inr (t, u')
     \<or> token_text u1 ch = Inr (t, u')
     \<or> token_number u1 ch = Inr (t, u')"
    by (auto simp: lex_token_def Let_def split: if_splits)
  then show ?thesis
    by (auto simp: token_new_def token_value_ok_def
                   TOKEN_NONE_def TOKEN_NUMBER_def TOKEN_STRING_def TOKEN_TEXT_def
             dest!: token_string_value token_text_value token_number_value)
qed

lemma token_eat_current:
  "token_eat u = Inr (t, u') \<Longrightarrow> t = current u \<and> previous u' = current u \<and> token_value_ok (current u')"
  by (auto simp: token_eat_def lex_next_def split: sum.splits dest!: lex_token_value)

text \<open>The value \<open>parse_node\<close> gives a node, by the token that follows the name.\<close>

lemma parse_node_value:
  assumes "parse_node u = Inr (node, u')"
  shows "\<exists>nm u1. token_expect u TOKEN_TEXT = Inr (nm, u1)
           \<and> token_value_ok (current u1)
           \<and> name node = value_string (value_t nm)
           \<and> (if kind (current u1) = of_char (CHR ''{'') then \<exists>cs. value_n node = Val_node cs
               else if kind (current u1) = TOKEN_NUMBER \<or> kind (current u1) = TOKEN_STRING
               then value_n node = value_t (current u1)
               else value_n node = Val_none)"
proof -
  from assms obtain nm u1 where e: "token_expect u TOKEN_TEXT = Inr (nm, u1)"
    by (subst (asm) parse_node.simps) (auto split: sum.splits)
  from token_expect_Inr [OF e] have ok: "token_value_ok (current u1)"
    by (auto dest: token_eat_current)
  have tc: "\<And>k x w. token_consume u1 k = Inr (Some x, w) \<Longrightarrow> x = current u1 \<and> kind (current u1) = k"
    by (auto dest!: token_consume_Some token_eat_current)
  have nf: "\<And>nm' v w n w'. node_finish nm' v w = Inr (n, w') \<Longrightarrow> name n = nm' \<and> value_n n = v"
    by (auto simp: node_finish_def split: sum.splits)
  from assms e have
    "name node = value_string (value_t nm)
     \<and> (if kind (current u1) = of_char (CHR ''{'') then \<exists>cs. value_n node = Val_node cs
         else if kind (current u1) = TOKEN_NUMBER \<or> kind (current u1) = TOKEN_STRING
         then value_n node = value_t (current u1)
         else value_n node = Val_none)"
    apply (subst (asm) parse_node.simps)
    apply (simp split: sum.splits option.splits prod.splits)
    apply (auto dest!: tc nf token_consume_None simp: TOKEN_NUMBER_def TOKEN_STRING_def)
    done
  with e ok show ?thesis by blast
qed

lemma subnodes_eq: "subnodes n = insert n (\<Union>c\<in>set (node_children n). subnodes c)"
  by (cases n; cases "value_n n") (auto simp: node_children_def)

lemma token_value_no_children: "token_value_ok t \<Longrightarrow> (case value_t t of Val_node cs \<Rightarrow> cs | _ \<Rightarrow> []) = []"
  by (cases "value_t t") (auto simp: token_value_ok_def split: if_splits)

lemma parse_built:
  "parse_node u = Inr (n, u') \<Longrightarrow> \<forall>m\<in>subnodes n. \<exists>v v'. parse_node v = Inr (m, v')"
  "parse_nodes w = Inr (ns, w') \<Longrightarrow> \<forall>n\<in>set ns. \<forall>m\<in>subnodes n. \<exists>v v'. parse_node v = Inr (m, v')"
proof (induction u and w arbitrary: n u' and ns w' rule: parse_node_parse_nodes.induct)
  case (1 u)
  from "1.prems" obtain nm u1 where e: "token_expect u TOKEN_TEXT = Inr (nm, u1)"
    by (subst (asm) parse_node.simps) (auto split: sum.splits)
  have "\<forall>c\<in>set (node_children n). \<forall>m\<in>subnodes c. \<exists>v v'. parse_node v = Inr (m, v')"
  proof (cases "kind (current u1) = of_char (CHR ''{'')")
    case True
    with "1.prems" e obtain x u2 cs u3 where
      c: "token_consume u1 (of_char (CHR ''{'')) = Inr (Some x, u2)"
      and p: "parse_nodes u2 = Inr (cs, u3)"
      and f: "node_finish (value_string (value_t nm)) (Val_node cs) u3 = Inr (n, u')"
      by (subst (asm) parse_node.simps)
         (auto simp: token_consume_def split: sum.splits)
    from f have "node_children n = cs"
      by (auto simp: node_finish_def node_children_def split: sum.splits)
    with "1.IH" [OF e refl c refl refl p] show ?thesis by simp
  next
    case False
    from parse_node_value [OF "1.prems"] e False
    have "token_value_ok (current u1)"
      and "value_n n = value_t (current u1) \<or> value_n n = Val_none"
      by (auto split: if_splits)
    then have "node_children n = []"
      by (auto simp: node_children_def dest: token_value_no_children)
    then show ?thesis by simp
  qed
  with "1.prems" show ?case
    by (subst subnodes_eq) blast
next
  case (2 w)
  show ?case
  proof (cases "kind (current w) = of_char (CHR ''}'')")
    case True
    with "2.prems" have "ns = []"
      by (subst (asm) parse_nodes.simps)
         (auto simp: token_consume_def split: sum.splits)
    then show ?thesis by simp
  next
    case False
    then have c: "token_consume w (of_char (CHR ''}'')) = Inr (None, w)"
      by (simp add: token_consume_def)
    with "2.prems" have c2: "token_consume w TOKEN_NONE = Inr (None, w)"
      by (subst (asm) parse_nodes.simps)
         (auto split: sum.splits option.splits dest: token_consume_None)
    with "2.prems" c obtain n w3 ns' where p: "parse_node w = Inr (n, w3)"
      and q: "parse_nodes w3 = Inr (ns', w')" and ns: "ns = n # ns'"
      by (subst (asm) parse_nodes.simps)
         (auto split: sum.splits)
    from "2.IH"(1) [OF c refl refl c2 refl refl p]
         "2.IH"(2) [OF c refl refl c2 refl refl p refl q] ns
    show ?thesis by simp
  qed
qed

section \<open>Facts about the queries\<close>

text \<open>
  On two slices of the same length, one of which holds no NUL byte, \<open>strncmp\<close> is 0
  exactly when the slices are equal.
\<close>

lemma strncmp_eq:
  "length a = n \<Longrightarrow> length b = n \<Longrightarrow> CHR 0x00 \<notin> set a \<or> CHR 0x00 \<notin> set b
     \<Longrightarrow> (strncmp a b n = 0) = (a = b)"
proof (induction a arbitrary: b n)
  case Nil
  then show ?case by simp
next
  case (Cons x xs)
  then obtain y ys m where b: "b = y # ys" and n: "n = Suc m"
    by (cases b; cases n) auto
  show ?case
  proof (cases "x = y")
    case True
    with Cons.prems b n have "x \<noteq> CHR 0x00" by auto
    moreover from Cons.prems b n have "(strncmp xs ys m = 0) = (xs = ys)"
      by (intro Cons.IH) auto
    ultimately show ?thesis using True b n by simp
  next
    case False
    then have "int (of_char x) \<noteq> int (of_char y)" by simp
    with False b n show ?thesis by simp
  qed
qed

lemma has_scan_find:
  "CHR 0x00 \<notin> set q \<or> (\<forall>n\<in>set ns. CHR 0x00 \<notin> set (note_name n))
     \<Longrightarrow> has_scan q ns
           = (case dropWhile (\<lambda>n. note_name n \<noteq> q) ns of [] \<Rightarrow> None | it # rest \<Rightarrow> Some (it # rest))"
proof (induction ns)
  case Nil
  then show ?case by simp
next
  case (Cons it rest)
  have "(length (note_name it) = length q \<and> strncmp (note_name it) q (length q) = 0)
          = (note_name it = q)"
  proof (cases "length (note_name it) = length q")
    case True
    from Cons.prems have "CHR 0x00 \<notin> set (note_name it) \<or> CHR 0x00 \<notin> set q" by auto
    from strncmp_eq [OF True refl this] True show ?thesis by simp
  next
    case False
    then show ?thesis by auto
  qed
  moreover from Cons
  have "has_scan q rest
          = (case dropWhile (\<lambda>n. note_name n \<noteq> q) rest of [] \<Rightarrow> None | it # r \<Rightarrow> Some (it # r))"
    by auto
  ultimately show ?case by simp
qed

text \<open>The lexer on a path of identifiers.\<close>

lemma ident_char_not_special:
  "ident_char c \<Longrightarrow> c \<noteq> CHR ''/'' \<and> c \<noteq> CHR 0x00 \<and> c \<noteq> CHR 0x0A \<and> c \<noteq> CHR 0x09 \<and> c \<noteq> CHR '' ''
     \<and> c \<noteq> CHR 0x22 \<and> c \<noteq> CHR ''{'' \<and> c \<noteq> CHR ''}'' \<and> c \<noteq> CHR ''@''"
  by (auto simp: ident_char_def isalpha_def isdigit_def)

lemma not_ident_char: "\<not> ident_char (CHR '' '')" "\<not> ident_char (CHR 0x00)"
  by (auto simp: ident_char_def isalpha_def isdigit_def)

lemma deref_byte_at: "byte_at (data u) i = Some c \<Longrightarrow> deref u i = c"
  by (auto simp: byte_at_def deref_def split: if_splits)

lemma raw_plain:
  "byte_at (data u) (cursor u) = Some c \<Longrightarrow> c \<noteq> CHR ''/'' \<Longrightarrow>
     raw u = Inr (cursor u, u\<lparr>cursor := Suc (cursor u)\<rparr>)"
  by (simp add: raw_def Let_def)

lemma next_ch_plain:
  assumes "byte_at (data u) (cursor u) = Some c"
    and "c \<noteq> CHR ''/''" "c \<noteq> CHR 0x0A" "c \<noteq> CHR 0x09" "c \<noteq> CHR '' ''"
  shows "next_ch u = Inr (cursor u, u\<lparr>cursor := Suc (cursor u)\<rparr>)"
proof -
  have "deref (u\<lparr>cursor := Suc (cursor u)\<rparr>) (cursor u) = c"
    using assms(1) by (simp add: deref_byte_at)
  with assms raw_plain [OF assms(1,2)] show ?thesis
    by (subst next_ch.simps) simp
qed

lemma next_ch_space:
  assumes "byte_at (data u) (cursor u) = Some (CHR '' '')"
  shows "next_ch u = next_ch (u\<lparr>cursor := Suc (cursor u)\<rparr>)"
proof -
  have "deref (u\<lparr>cursor := Suc (cursor u)\<rparr>) (cursor u) = CHR '' ''"
    using assms by (simp add: deref_byte_at)
  with raw_plain [OF assms] show ?thesis
    by (subst next_ch.simps) simp
qed

lemma byte_at_append:
  "byte_at (pre @ rest) (length pre) = Some (case rest of [] \<Rightarrow> CHR 0x00 | c # _ \<Rightarrow> c)"
  by (cases rest) (auto simp: byte_at_def)

text \<open>The loop of \<open>token_text\<close> on a run \<open>s\<close> of identifier characters that a blank or the end follows.\<close>

lemma text_loop_ident:
  "data u = pre @ s @ rest \<Longrightarrow> ch = length pre \<Longrightarrow> cursor u = Suc ch \<Longrightarrow> list_all ident_char s
     \<Longrightarrow> rest = [] \<or> hd rest = CHR '' ''
     \<Longrightarrow> text_loop u ch = Inr (u\<lparr>cursor := Suc ch + length s\<rparr>)"
proof (induction s arbitrary: pre ch u)
  case Nil
  then have "byte_at (data u) ch = Some (case rest of [] \<Rightarrow> CHR 0x00 | c # _ \<Rightarrow> c)"
    by (simp add: byte_at_append)
  with Nil have "\<not> ident_char (deref u ch)"
    by (cases rest) (auto simp: deref_byte_at not_ident_char)
  with Nil show ?case
    by (subst text_loop.simps) (simp add: ident_char_def)
next
  case (Cons c s)
  from Cons.prems have d: "data u = (pre @ [c]) @ s @ rest" by simp
  from Cons.prems have "byte_at (data u) ch = Some c"
    using byte_at_append [of pre "c # s @ rest"] by simp
  then have dc: "deref u ch = c" by (rule deref_byte_at)
  from Cons.prems have ic: "ident_char c" by simp
  let ?n = "case s @ rest of [] \<Rightarrow> CHR 0x00 | x # _ \<Rightarrow> x"
  from d Cons.prems have b: "byte_at (data u) (cursor u) = Some ?n"
    using byte_at_append [of "pre @ [c]" "s @ rest"] by simp
  have "?n \<noteq> CHR ''/''"
  proof (cases s)
    case Nil
    with Cons.prems show ?thesis by (cases rest) auto
  next
    case (Cons x xs)
    with Cons.prems ident_char_not_special [of x] show ?thesis by simp
  qed
  from raw_plain [OF b this] have r: "raw u = Inr (cursor u, u\<lparr>cursor := Suc (cursor u)\<rparr>)" .
  have "text_loop (u\<lparr>cursor := Suc (cursor u)\<rparr>) (Suc ch)
          = Inr (u\<lparr>cursor := Suc (cursor u)\<rparr>\<lparr>cursor := Suc (Suc ch) + length s\<rparr>)"
    using d Cons.prems by (intro Cons.IH [where pre = "pre @ [c]"]) auto
  with r dc ic Cons.prems show ?case
    by (subst text_loop.simps) (simp add: ident_char_def)
qed

lemma token_text_ident:
  assumes "data u = pre @ s @ rest" "cursor u = Suc (length pre)" "list_all ident_char s"
    and "rest = [] \<or> hd rest = CHR '' ''"
  shows "token_text u (length pre)
           = Inr (text_token u (length pre) s, u\<lparr>cursor := length pre + length s\<rparr>)"
proof -
  from text_loop_ident [OF assms(1) refl assms(2,3,4)]
  have "text_loop u (length pre) = Inr (u\<lparr>cursor := Suc (length pre) + length s\<rparr>)" .
  moreover have "slice (data u) (Some (length pre)) (Some (length pre + length s)) = s"
    using assms(1) by (simp add: slice_def)
  ultimately show ?thesis
    by (simp add: token_text_def token_new_def text_token_def Let_def source_f_def TOKEN_TEXT_def)
qed

text \<open>\<open>lex_token\<close> at an identifier, with or without one blank before it, and at the end.\<close>

lemma lex_token_ident:
  assumes "data u = pre @ s @ rest" "cursor u = length pre" "ident s"
    and "rest = [] \<or> hd rest = CHR '' ''" "cursor u \<le> length_u u"
  shows "lex_token u = Inr (text_token u (length pre) s, u\<lparr>cursor := length pre + length s\<rparr>)"
proof -
  from assms(3) obtain c s' where s: "s = c # s'" and c: "isalpha c \<or> c = CHR ''_''"
    and ic: "ident_char c" and all: "list_all ident_char s"
    by (cases s) (auto simp: ident_def)
  from assms(1,2) s have b: "byte_at (data u) (cursor u) = Some c"
    using byte_at_append [of pre "s @ rest"] by simp
  let ?u1 = "u\<lparr>cursor := Suc (cursor u)\<rparr>"
  from ident_char_not_special [OF ic] next_ch_plain [OF b]
  have n: "next_ch u = Inr (cursor u, ?u1)" by simp
  from b have d: "deref ?u1 (cursor u) = c" by (simp add: deref_byte_at)
  have "token_text ?u1 (length pre)
          = Inr (text_token ?u1 (length pre) s, ?u1\<lparr>cursor := length pre + length s\<rparr>)"
    using assms(1,2,4) all by (intro token_text_ident) auto
  with n d c ident_char_not_special [OF ic] assms(2,5) show ?thesis
    by (simp add: lex_token_def Let_def text_token_def source_f_def)
qed

lemma lex_token_blank_ident:
  assumes "data u = pre @ CHR '' '' # s @ rest" "cursor u = length pre" "ident s"
    and "rest = [] \<or> hd rest = CHR '' ''" "cursor u \<le> length_u u"
  shows "lex_token u
           = Inr (text_token u (Suc (length pre)) s, u\<lparr>cursor := Suc (length pre) + length s\<rparr>)"
proof -
  from assms(3) obtain c s' where s: "s = c # s'" and c: "isalpha c \<or> c = CHR ''_''"
    and ic: "ident_char c" and all: "list_all ident_char s"
    by (cases s) (auto simp: ident_def)
  from assms(1,2) have b0: "byte_at (data u) (cursor u) = Some (CHR '' '')"
    using byte_at_append [of pre "CHR '' '' # s @ rest"] by simp
  let ?u0 = "u\<lparr>cursor := Suc (cursor u)\<rparr>"
  let ?u1 = "u\<lparr>cursor := Suc (Suc (cursor u))\<rparr>"
  from assms(1,2) s have b: "byte_at (data ?u0) (cursor ?u0) = Some c"
    using byte_at_append [of "pre @ [CHR '' '']" "s @ rest"] by simp
  from ident_char_not_special [OF ic] next_ch_plain [OF b] next_ch_space [OF b0]
  have n: "next_ch u = Inr (Suc (cursor u), ?u1)" by simp
  from b have d: "deref ?u1 (Suc (cursor u)) = c" by (simp add: deref_byte_at)
  have "token_text ?u1 (length (pre @ [CHR '' '']))
          = Inr (text_token ?u1 (length (pre @ [CHR '' ''])) s,
                 ?u1\<lparr>cursor := length (pre @ [CHR '' '']) + length s\<rparr>)"
    using assms(1,2,4) all by (intro token_text_ident) auto
  with n d c ident_char_not_special [OF ic] assms(2,5) show ?thesis
    by (simp add: lex_token_def Let_def text_token_def source_f_def)
qed

lemma lex_token_end:
  assumes "cursor u = length (data u)" "cursor u \<le> length_u u"
  shows "lex_token u = Inr (token_new u TOKEN_NONE (Some (cursor u)) (Some (cursor u)),
                            u\<lparr>cursor := Suc (cursor u)\<rparr>)"
proof -
  from assms(1) have b: "byte_at (data u) (cursor u) = Some (CHR 0x00)"
    by (simp add: byte_at_def)
  from next_ch_plain [OF b] have n: "next_ch u = Inr (cursor u, u\<lparr>cursor := Suc (cursor u)\<rparr>)"
    by simp
  from b have "deref (u\<lparr>cursor := Suc (cursor u)\<rparr>) (cursor u) = CHR 0x00"
    by (simp add: deref_byte_at)
  with n assms(2) show ?thesis
    by (simp add: lex_token_def Let_def token_new_def source_f_def)
qed

lemma rest_of_head: "rest_of ss = [] \<or> hd (rest_of ss) = CHR '' ''"
  by (cases ss) auto

lemma find_loop_segments:
  assumes "drop (cursor u) (data u) = rest_of ss" "cursor u \<le> length (data u)"
    and "length_u u = length (data u)"
    and "kind (current u) = TOKEN_TEXT" "value_t (current u) = Val_string s"
    and "list_all ident ss"
  shows "case find_segments cur (s # ss) of
           Inl e \<Rightarrow> find_loop u cur = Inl e
         | Inr (r, seg, todo) \<Rightarrow>
             \<exists>u'. find_loop u cur = Inr (r, u') \<and> value_t (previous u') = Val_string seg
                  \<and> lookahead u' todo"
  using assms
proof (induction ss arbitrary: u s cur)
  case Nil
  from Nil.prems have c: "cursor u = length (data u)" by simp
  define u1 where "u1 = u\<lparr>cursor := Suc (cursor u), previous := current u,
      current := token_new u TOKEN_NONE (Some (cursor u)) (Some (cursor u))\<rparr>"
  from lex_token_end [OF c] Nil.prems(3,4) c
  have tc: "token_consume u TOKEN_TEXT = Inr (Some (current u), u1)"
    by (simp add: token_consume_def token_eat_def lex_next_def u1_def)
  have k: "kind (current u1) = TOKEN_NONE" "previous u1 = current u"
    by (simp_all add: u1_def token_new_def)
  show ?case
  proof (cases cur)
    case Wild
    with tc show ?thesis by (subst find_loop.simps) simp
  next
    case Dangling
    with tc show ?thesis by (subst find_loop.simps) simp
  next
    case (Nodes ns)
    show ?thesis
    proof (cases "find_scan s ns")
      case None
      with Nodes tc Nil.prems(5) have "find_loop u cur = Inr (None, u1)"
        by (subst find_loop.simps) (simp add: value_string_def)
      with None Nodes k Nil.prems(5) show ?thesis by (simp add: lookahead_def)
    next
      case (Some it)
      with Nodes tc Nil.prems(5) k have "find_loop u cur = Inr (Some it, u1)"
        by (subst find_loop.simps) (simp add: value_string_def)
      with Some Nodes k Nil.prems(5) show ?thesis by (simp add: lookahead_def)
    qed
  qed
next
  case (Cons t ss)
  define pre where "pre = take (cursor u) (data u)"
  have "data u = take (cursor u) (data u) @ drop (cursor u) (data u)" by simp
  also have "drop (cursor u) (data u) = CHR '' '' # t @ rest_of ss"
    using Cons.prems(1) by simp
  finally have d: "data u = pre @ CHR '' '' # t @ rest_of ss" unfolding pre_def .
  have lp: "cursor u = length pre"
    unfolding pre_def using Cons.prems(2) by simp
  from Cons.prems(6) have it: "ident t" and rest: "list_all ident ss" by simp_all
  define u1 where "u1 = u\<lparr>cursor := Suc (length pre) + length t, previous := current u,
      current := text_token u (Suc (length pre)) t\<rparr>"
  from lex_token_blank_ident [OF d lp it rest_of_head] Cons.prems(2,3,4)
  have tc: "token_consume u TOKEN_TEXT = Inr (Some (current u), u1)"
    by (simp add: token_consume_def token_eat_def lex_next_def u1_def)
  have k: "kind (current u1) = TOKEN_TEXT" "value_t (current u1) = Val_string t"
    "previous u1 = current u"
    by (simp_all add: u1_def text_token_def)
  from d have "data u = (pre @ CHR '' '' # t) @ rest_of ss" by simp
  then have "drop (length (pre @ CHR '' '' # t)) (data u) = rest_of ss"
    by (metis append_eq_conv_conj)
  then have inv: "drop (cursor u1) (data u1) = rest_of ss" "cursor u1 \<le> length (data u1)"
    "length_u u1 = length (data u1)"
    using d Cons.prems(3) by (simp_all add: u1_def)
  show ?case
  proof (cases cur)
    case Wild
    with tc show ?thesis by (subst find_loop.simps) simp
  next
    case Dangling
    with tc show ?thesis by (subst find_loop.simps) simp
  next
    case (Nodes ns)
    show ?thesis
    proof (cases "find_scan s ns")
      case None
      with Nodes tc Cons.prems(5) have "find_loop u cur = Inr (None, u1)"
        by (subst find_loop.simps) (simp add: value_string_def)
      with None Nodes k Cons.prems(5) show ?thesis by (simp add: lookahead_def)
    next
      case (Some n)
      with Nodes tc Cons.prems(5) k
      have e1: "find_loop u cur = find_loop u1 (value_node (value_n n))"
        by (subst find_loop.simps) (simp add: value_string_def TOKEN_TEXT_def TOKEN_NONE_def)
      from Some Nodes
      have e2: "find_segments cur (s # t # ss) = find_segments (value_node (value_n n)) (t # ss)"
        by simp
      show ?thesis
        unfolding e1 e2 by (rule Cons.IH [OF inv k(1,2) rest])
    qed
  qed
qed

lemma ident_no_nul: "ident s \<Longrightarrow> CHR 0x00 \<notin> set s"
  using ident_char_not_special by (auto simp: ident_def list_all_iff)

lemma rest_of_no_nul: "list_all ident ss \<Longrightarrow> CHR 0x00 \<notin> set (rest_of ss)"
  by (induction ss) (auto dest: ident_no_nul)

lemma path_unit_path:
  assumes "list_all ident segs"
  shows "path_unit lit (path_of segs)
           = unit_zero\<lparr>data := path_of segs, length_u := length (path_of segs), read_only := lit\<rparr>"
proof -
  from assms have "CHR 0x00 \<notin> set (path_of segs)"
    by (cases segs) (auto simp: path_of_def dest: ident_no_nul rest_of_no_nul)
  then have "takeWhile (\<lambda>c. c \<noteq> CHR 0x00) (path_of segs) = path_of segs"
    by (intro takeWhile_eq_all_conv [THEN iffD2]) auto
  then show ?thesis by (simp only: path_unit_def strlen_def cstr_def)
qed

lemma find_scan_find:
  "CHR 0x00 \<notin> set s \<Longrightarrow> find_scan s ns = List.find (\<lambda>n. name n = s) ns"
proof (induction ns)
  case Nil
  then show ?case by simp
next
  case (Cons it rest)
  have "(length s = length (name it) \<and> strncmp s (name it) (length (name it)) = 0) = (name it = s)"
  proof (cases "length s = length (name it)")
    case True
    from Cons.prems have "CHR 0x00 \<notin> set s \<or> CHR 0x00 \<notin> set (name it)" by simp
    from strncmp_eq [OF True refl this] True show ?thesis by auto
  next
    case False
    then show ?thesis by auto
  qed
  with Cons show ?case by simp
qed

text \<open>\<open>y_find\<close> on a path of identifiers is the walk over its segments.\<close>

lemma y_find_unit_segments:
  assumes "list_all ident segs"
  shows "case find_segments (heads_nodes y) segs of
           Inl e \<Rightarrow> y_find_unit lit y (path_of segs) = Inl e
         | Inr (r, seg, todo) \<Rightarrow>
             \<exists>u'. y_find_unit lit y (path_of segs) = Inr (r, u')
                  \<and> value_t (previous u') = Val_string seg \<and> lookahead u' todo"
proof (cases segs)
  case Nil
  let ?u0 = "path_unit lit []"
  define u1 where "u1 = ?u0\<lparr>cursor := Suc 0, previous := current ?u0,
      current := token_new ?u0 TOKEN_NONE (Some 0) (Some 0)\<rparr>"
  have "lex_token ?u0 = Inr (token_new ?u0 TOKEN_NONE (Some 0) (Some 0), ?u0\<lparr>cursor := Suc 0\<rparr>)"
    using lex_token_end [of ?u0] by (simp add: unit_zero_def path_unit_def strlen_def cstr_def)
  then have ln: "lex_next ?u0 = Inr (token_new ?u0 TOKEN_NONE (Some 0) (Some 0), u1)"
    by (simp add: lex_next_def u1_def)
  have "kind (current u1) \<noteq> TOKEN_TEXT"
    by (simp add: u1_def token_new_def TOKEN_NONE_def TOKEN_TEXT_def)
  then have "find_loop u1 (heads_nodes y) = Inl No_return"
    by (subst find_loop.simps) (simp add: token_consume_def)
  with ln have "y_find_unit lit y [] = Inl No_return"
    by (simp add: y_find_unit_def Let_def)
  with Nil show ?thesis by (simp add: path_of_def)
next
  case (Cons s ss)
  with assms have s: "ident s" and ss: "list_all ident ss" by simp_all
  define u0 where "u0 = path_unit lit (path_of segs)"
  from path_unit_path [OF assms, of lit]
  have u0: "u0 = unit_zero\<lparr>data := s @ rest_of ss, length_u := length (s @ rest_of ss),
                           read_only := lit\<rparr>"
    unfolding u0_def Cons path_of_def by simp
  have d: "data u0 = [] @ s @ rest_of ss" by (simp add: u0)
  have c: "cursor u0 = length ([] :: string)" by (simp add: u0 unit_zero_def)
  have l: "cursor u0 \<le> length_u u0" by (simp add: u0 unit_zero_def)
  define u1 where "u1 = u0\<lparr>cursor := length s, previous := current u0,
      current := text_token u0 0 s\<rparr>"
  from lex_token_ident [OF d c s rest_of_head l]
  have ln: "lex_next u0 = Inr (text_token u0 0 s, u1)"
    by (simp add: lex_next_def u1_def)
  have inv: "drop (cursor u1) (data u1) = rest_of ss" "cursor u1 \<le> length (data u1)"
    "length_u u1 = length (data u1)" "kind (current u1) = TOKEN_TEXT"
    "value_t (current u1) = Val_string s"
    by (simp_all add: u1_def u0 text_token_def)
  from ln have e: "y_find_unit lit y (path_of segs) = find_loop u1 (heads_nodes y)"
    by (simp add: y_find_unit_def Let_def u0_def)
  show ?thesis
    unfolding e unfolding Cons by (rule find_loop_segments [OF inv ss])
qed

lemma y_find_segments:
  assumes "list_all ident segs"
  shows "y_find y (path_of segs)
           = (case find_segments (heads_nodes y) segs of
                Inl e \<Rightarrow> Inl e | Inr (r, _, _) \<Rightarrow> Inr r)"
  using y_find_unit_segments [OF assms, of True y]
  by (auto simp: y_find_def split: sum.splits)

lemma find_segments_not_fatal: "find_segments cur segs \<noteq> Inl (Fatal m)"
proof (induction segs arbitrary: cur)
  case Nil
  then show ?case by simp
next
  case (Cons s ss)
  show ?case
  proof (cases cur)
    case Wild
    then show ?thesis by simp
  next
    case Dangling
    then show ?thesis by simp
  next
    case (Nodes ns)
    with Cons show ?thesis by (cases "find_scan s ns") auto
  qed
qed

lemma find_segments_extend:
  "find_segments cur (p @ [s]) = Inr (Some it, x, u) \<Longrightarrow>
     find_segments cur (p @ s # t # ss) = find_segments (value_node (value_n it)) (t # ss)"
proof (induction p arbitrary: cur)
  case Nil
  then obtain ns where "cur = Nodes ns" by (cases cur) auto
  with Nil show ?case by (cases "find_scan s ns") auto
next
  case (Cons a p)
  then obtain ns where c: "cur = Nodes ns" by (cases cur) auto
  with Cons.prems obtain n where n: "find_scan a ns = Some n"
    by (cases "find_scan a ns") auto
  with c Cons.prems have "find_segments (value_node (value_n n)) (p @ [s]) = Inr (Some it, x, u)"
    by simp
  from Cons.IH [OF this] c n show ?case by simp
qed

text \<open>Text tokens, and with them node and note names, are not empty and hold no NUL.\<close>

lemma raw_loop_scan:
  "raw_loop u ch = Inr (ch', u') \<Longrightarrow> Suc ch = cursor u \<Longrightarrow>
     Suc ch' = cursor u' \<and> ch \<le> ch'
     \<and> (\<forall>i. ch \<le> i \<and> i < ch' \<longrightarrow> i < length (data u) \<and> data u ! i \<noteq> CHR 0x00)"
proof (induction u ch rule: raw_loop.induct)
  case (1 u ch)
  from "1.prems" obtain c where c: "byte_at (data u) ch = Some c"
    by (subst (asm) raw_loop.simps) (cases "byte_at (data u) ch", auto)
  show ?case
  proof (cases "c \<noteq> CHR 0x00 \<and> c \<noteq> CHR 0x0A")
    case True
    with c "1.prems" have r: "raw_loop (u\<lparr>cursor := cursor u + 1\<rparr>) (cursor u) = Inr (ch', u')"
      by (subst (asm) raw_loop.simps) simp
    from "1.IH" [OF c True r] have ih: "Suc ch' = cursor u'" "cursor u \<le> ch'"
      "\<forall>i. cursor u \<le> i \<and> i < ch' \<longrightarrow> i < length (data u) \<and> data u ! i \<noteq> CHR 0x00"
      by simp_all
    from c True have here: "ch < length (data u) \<and> data u ! ch \<noteq> CHR 0x00"
      by (auto simp: byte_at_def split: if_splits)
    show ?thesis
    proof (intro conjI allI impI)
      show "Suc ch' = cursor u'" by (rule ih(1))
      show "ch \<le> ch'" using ih(2) "1.prems"(2) by simp
    next
      fix i assume "ch \<le> i \<and> i < ch'"
      then have "i = ch \<or> (cursor u \<le> i \<and> i < ch')" using "1.prems"(2) by auto
      with here ih(3) show "i < length (data u)" by auto
    next
      fix i assume "ch \<le> i \<and> i < ch'"
      then have "i = ch \<or> (cursor u \<le> i \<and> i < ch')" using "1.prems"(2) by auto
      with here ih(3) show "data u ! i \<noteq> CHR 0x00" by auto
    qed
  next
    case False
    with c "1.prems" have "ch' = ch \<and> u' = u"
      by (subst (asm) raw_loop.simps) auto
    with "1.prems"(2) show ?thesis by auto
  qed
qed

text \<open>
  What \<open>raw\<close> passes over: it returns the position before its cursor, leaves the bytes
  before the old cursor as they are, and every byte it has skipped is not NUL.
\<close>

lemma raw_scan:
  assumes "raw u = Inr (ch, u')"
  shows "Suc ch = cursor u' \<and> cursor u \<le> ch
         \<and> (\<forall>i. i < cursor u \<longrightarrow> data u' ! i = data u ! i)
         \<and> (\<forall>i. cursor u \<le> i \<and> i < ch \<longrightarrow> i < length (data u') \<and> data u' ! i \<noteq> CHR 0x00)"
proof -
  let ?i = "cursor u"
  let ?u1 = "u\<lparr>cursor := cursor u + 1\<rparr>"
  from assms obtain c where c: "byte_at (data u) ?i = Some c"
    by (auto simp: raw_def Let_def split: option.splits)
  show ?thesis
  proof (cases "c = CHR ''/'' \<and> byte_at (data u) (?i + 1) = Some (CHR ''/'')")
    case False
    with assms c have "ch = ?i \<and> u' = ?u1" by (auto simp: raw_def Let_def)
    then show ?thesis by auto
  next
    case True
    let ?u2 = "?u1\<lparr>data := (data u)[?i := char_of (of_char c + (2 :: nat))]\<rparr>"
    from True assms c have r: "raw_loop ?u2 ?i = Inr (ch, u')"
      by (simp add: raw_def Let_def split: if_splits)
    from raw_loop_facts [OF r] have d: "data u' = data ?u2" by simp
    from raw_loop_scan [OF r] have s: "Suc ch = cursor u'" "?i \<le> ch"
      "\<forall>i. ?i \<le> i \<and> i < ch \<longrightarrow> i < length (data ?u2) \<and> data ?u2 ! i \<noteq> CHR 0x00"
      by simp_all
    from d have "\<forall>i. i < ?i \<longrightarrow> data u' ! i = data u ! i" by simp
    with s d show ?thesis by simp
  qed
qed

lemma next_ch_scan: "next_ch u = Inr (ch, u') \<Longrightarrow> Suc ch = cursor u'"
proof (induction u arbitrary: ch u' rule: next_ch.induct)
  case (1 u)
  from "1.prems" obtain c u1 where r: "raw u = Inr (c, u1)"
    by (subst (asm) next_ch.simps) (auto split: sum.splits)
  show ?case
  proof (cases "deref u1 c = CHR 0x0A")
    case True
    with r "1.prems"
    have "next_ch (u1\<lparr>line_u := line_u u1 + 1, start_u := Some (c + 1)\<rparr>) = Inr (ch, u')"
      by (subst (asm) next_ch.simps) simp
    from "1.IH"(1) [OF r refl True this] show ?thesis .
  next
    case nl: False
    show ?thesis
    proof (cases "deref u1 c = CHR 0x09 \<or> deref u1 c = CHR '' ''")
      case True
      with nl r "1.prems" have "next_ch u1 = Inr (ch, u')"
        by (subst (asm) next_ch.simps) simp
      from "1.IH"(2) [OF r refl nl True this] show ?thesis .
    next
      case False
      with nl r "1.prems" have "ch = c \<and> u' = u1"
        by (subst (asm) next_ch.simps) auto
      with raw_scan [OF r] show ?thesis by simp
    qed
  qed
qed

lemma text_loop_scan:
  "text_loop u ch = Inr u' \<Longrightarrow> Suc ch = cursor u \<Longrightarrow>
     (\<forall>i. b \<le> i \<and> i < ch \<longrightarrow> i < length (data u) \<and> data u ! i \<noteq> CHR 0x00) \<Longrightarrow>
     (\<forall>i. b \<le> i \<and> i < cursor u' - 1 \<longrightarrow> i < length (data u') \<and> data u' ! i \<noteq> CHR 0x00)
     \<and> ch \<le> cursor u' - 1
     \<and> (isalpha (deref u ch) \<or> isdigit (deref u ch) \<or> deref u ch = CHR ''_'' \<longrightarrow> ch < cursor u' - 1)"
proof (induction u ch arbitrary: u' rule: text_loop.induct)
  case (1 u ch)
  show ?case
  proof (cases "isalpha (deref u ch) \<or> isdigit (deref u ch) \<or> deref u ch = CHR ''_''")
    case False
    with "1.prems" have "u' = u" by (subst (asm) text_loop.simps) auto
    with False "1.prems" show ?thesis by auto
  next
    case True
    with "1.prems" obtain c u1 where r: "raw u = Inr (c, u1)" and l: "text_loop u1 c = Inr u'"
      by (subst (asm) text_loop.simps) (auto split: sum.splits)
    from True have "deref u ch \<noteq> CHR 0x00"
      by (auto simp: isalpha_def isdigit_def)
    then have here: "ch < length (data u) \<and> data u ! ch \<noteq> CHR 0x00"
      by (auto simp: deref_def split: if_splits)
    note rs = raw_scan [OF r]
    from raw_facts [OF r] have len: "length (data u1) = length (data u)" by simp
    have pre: "\<forall>i. b \<le> i \<and> i < c \<longrightarrow> i < length (data u1) \<and> data u1 ! i \<noteq> CHR 0x00"
    proof (intro allI impI)
      fix i assume i: "b \<le> i \<and> i < c"
      show "i < length (data u1) \<and> data u1 ! i \<noteq> CHR 0x00"
      proof (cases "i < cursor u")
        case False
        with i rs show ?thesis by simp
      next
        case True
        with rs have same: "data u1 ! i = data u ! i" by simp
        from True "1.prems"(2) have "i < ch \<or> i = ch" by auto
        with i "1.prems"(3) here same len show ?thesis by auto
      qed
    qed
    from rs have sc: "Suc c = cursor u1" by simp
    from "1.IH" [OF True r refl l sc pre] rs "1.prems"(2) show ?thesis by auto
  qed
qed

lemma slice_no_nul:
  assumes "b < e" and "\<forall>i. b \<le> i \<and> i < e \<longrightarrow> i < length d \<and> d ! i \<noteq> CHR 0x00"
  shows "slice d (Some b) (Some e) \<noteq> [] \<and> CHR 0x00 \<notin> set (slice d (Some b) (Some e))"
proof -
  from assms have "e - 1 < length d" 
  proof -
    from assms(1) have "b \<le> e - 1 \<and> e - 1 < e" by auto
    with assms(2) show ?thesis by blast
  qed
  with assms(1) have e: "e \<le> length d" by simp
  then have len: "length (slice d (Some b) (Some e)) = e - b" by (simp add: slice_def)
  have nth: "\<And>k. k < e - b \<Longrightarrow> slice d (Some b) (Some e) ! k = d ! (b + k)"
    using e by (simp add: slice_def)
  have "\<And>k. k < e - b \<Longrightarrow> slice d (Some b) (Some e) ! k \<noteq> CHR 0x00"
    using nth assms(2) by auto
  with len have "CHR 0x00 \<notin> set (slice d (Some b) (Some e))"
    by (auto simp: in_set_conv_nth)
  moreover from len assms(1) have "slice d (Some b) (Some e) \<noteq> []" by auto
  ultimately show ?thesis by simp
qed

text \<open>A text token holds at least one byte and no NUL.\<close>

lemma token_text_scan:
  assumes "token_text u b = Inr (t, u')" and "Suc b = cursor u"
    and "isalpha (deref u b) \<or> deref u b = CHR ''_''"
  shows "\<exists>s. value_t t = Val_string s \<and> s \<noteq> [] \<and> CHR 0x00 \<notin> set s"
proof -
  from assms(1) obtain u1 where l: "text_loop u b = Inr u1"
    and t: "t = token_new (u1\<lparr>cursor := cursor u1 - 1\<rparr>) TOKEN_TEXT (Some b) (Some (cursor u1 - 1))"
    by (auto simp: token_text_def Let_def split: sum.splits)
  have "\<forall>i. b \<le> i \<and> i < b \<longrightarrow> i < length (data u) \<and> data u ! i \<noteq> CHR 0x00" by auto
  from text_loop_scan [OF l assms(2) this] assms(3)
  have "b < cursor u1 - 1"
    and "\<forall>i. b \<le> i \<and> i < cursor u1 - 1 \<longrightarrow> i < length (data u1) \<and> data u1 ! i \<noteq> CHR 0x00"
    by auto
  from slice_no_nul [OF this] t show ?thesis
    by (simp add: token_new_def)
qed

lemma lex_token_text_value:
  assumes "lex_token u = Inr (t, u')" and "kind t = TOKEN_TEXT"
  shows "\<exists>s. value_t t = Val_string s \<and> s \<noteq> [] \<and> CHR 0x00 \<notin> set s"
proof (cases "cursor u > length_u u")
  case True
  with assms show ?thesis
    by (auto simp: lex_token_def token_new_def TOKEN_NONE_def TOKEN_TEXT_def)
next
  case False
  with assms(1) obtain ch u1 where n: "next_ch u = Inr (ch, u1)"
    by (auto simp: lex_token_def split: sum.splits)
  from assms(1) False n have
    "t = token_new u1 TOKEN_NONE (Some ch) (Some ch)
     \<or> t = token_new u1 123 (Some ch) (Some (ch + 1))
     \<or> t = token_new u1 125 (Some ch) (Some (ch + 1))
     \<or> t = token_new u1 64 (Some ch) (Some (ch + 1))
     \<or> token_string u1 ch = Inr (t, u')
     \<or> ((isalpha (deref u1 ch) \<or> deref u1 ch = CHR ''_'') \<and> token_text u1 ch = Inr (t, u'))
     \<or> token_number u1 ch = Inr (t, u')"
    by (auto simp: lex_token_def Let_def split: if_splits)
  with assms(2) have "(isalpha (deref u1 ch) \<or> deref u1 ch = CHR ''_'') \<and> token_text u1 ch = Inr (t, u')"
    by (auto simp: token_new_def TOKEN_NONE_def TOKEN_TEXT_def TOKEN_STRING_def TOKEN_NUMBER_def
             dest!: token_string_value token_number_value)
  with token_text_scan [OF _ next_ch_scan [OF n]] show ?thesis by blast
qed

lemma token_eat_lexed: "token_eat u = Inr (t, u') \<Longrightarrow> \<exists>w. lex_token u = Inr (current u', w)"
  by (auto simp: token_eat_def lex_next_def split: sum.splits)

lemma parse_note_names:
  "parse_note u = Inr (ns, u') \<Longrightarrow> \<forall>n\<in>set ns. note_name n \<noteq> [] \<and> CHR 0x00 \<notin> set (note_name n)"
proof (induction u arbitrary: ns u' rule: parse_note.induct)
  case (1 u)
  show ?case
  proof (cases "kind (current u) = of_char (CHR ''@'')")
    case False
    with "1.prems" have "ns = []"
      by (subst (asm) parse_note.simps) (auto simp: token_consume_def)
    then show ?thesis by simp
  next
    case True
    with "1.prems" obtain a u1 t u2 ns' where
      c: "token_consume u (of_char (CHR ''@'')) = Inr (Some a, u1)"
      and e: "token_expect u1 TOKEN_TEXT = Inr (t, u2)"
      and r: "parse_note u2 = Inr (ns', u')"
      and ns: "ns = Y_note (value_string (value_t t)) # ns'"
      by (subst (asm) parse_note.simps)
         (auto simp: token_consume_def split: sum.splits option.splits)
    from token_consume_Some [OF c] obtain w where l: "lex_token u = Inr (current u1, w)"
      by (auto dest: token_eat_lexed)
    from token_expect_Inr [OF e] have k: "kind (current u1) = TOKEN_TEXT" and t: "t = current u1"
      by (auto dest: token_eat_current)
    from lex_token_text_value [OF l k] t
    have "value_string (value_t t) \<noteq> [] \<and> CHR 0x00 \<notin> set (value_string (value_t t))"
      by (auto simp: value_string_def)
    with "1.IH" [OF c refl refl e refl r] ns show ?thesis by simp
  qed
qed

lemma parse_node_notes:
  assumes "parse_node u = Inr (n, u')"
  shows "\<forall>x\<in>set (note_n n). CHR 0x00 \<notin> set (note_name x)"
proof -
  have nf: "\<And>nm v w w'. node_finish nm v w = Inr (n, w') \<Longrightarrow> ?thesis"
    by (auto simp: node_finish_def split: sum.splits dest!: parse_note_names)
  from assms show ?thesis
    apply (subst (asm) parse_node.simps)
    apply (simp split: sum.splits option.splits prod.splits)
    apply (auto dest: nf)
    done
qed

lemma y_load_node_notes:
  assumes "y_load_node bytes = Inr r0" and "m \<in> subnodes r0"
  shows "\<forall>x\<in>set (note_n m). CHR 0x00 \<notin> set (note_name x)"
proof -
  from assms(1) obtain t u1 u2 where "parse_unit u1 = Inr (r0, u2)"
    by (auto simp: y_load_node_def y_load_def Let_def split: sum.splits)
  then obtain u3 where "parse_node u1 = Inr (r0, u3)"
    by (auto simp: parse_unit_def split: sum.splits)
  from parse_built(1) [OF this] assms(2) obtain v v' where "parse_node v = Inr (m, v')"
    by blast
  then show ?thesis by (rule parse_node_notes)
qed

text \<open>After a load the list that \<open>y_find\<close> scans is the new root alone.\<close>

definition heads_ok :: "yctx_t \<Rightarrow> bool" where
  "heads_ok y = (case heads y of Dead_root \<Rightarrow> True | Loaded k \<Rightarrow> k < length (loaded y))"

lemma y_load_heads:
  assumes "y_load y bytes = Inr (head, y')" and "heads_ok y"
  shows "heads_nodes y' = Nodes [head] \<and> heads_ok y'"
  using assms
  by (auto simp: y_load_def Let_def heads_ok_def heads_nodes_def
           split: sum.splits heads_ptr.splits)

text \<open>
  With two units loaded, a one-segment path is absent unless it names the root loaded
  last, whatever the first root is called.
\<close>

lemma y_find_after_second_load:
  assumes "y_load y b1 = Inr (r1, y1)" and "y_load y1 b2 = Inr (r2, y2)"
    and "heads_ok y" and "ident s" and "name r2 \<noteq> s"
  shows "y_find y2 s = Inr None"
proof -
  from y_load_heads [OF assms(1,3)] have "heads_ok y1" by simp
  from y_load_heads [OF assms(2) this] have d: "heads_nodes y2 = Nodes [r2]" by simp
  from assms(4,5) have "find_scan s [r2] = None"
    by (subst find_scan_find) (auto dest: ident_no_nul)
  with d have "find_segments (heads_nodes y2) [s] = Inr (None, s, [])"
    by simp
  with y_find_segments [of "[s]" y2] assms(4) show ?thesis by (simp add: path_of_def)
qed

text \<open>A fatal error of \<open>y_find\<close> is an error of the lexer.\<close>

lemma raw_loop_not_fatal: "raw_loop u ch \<noteq> Inl (Fatal m)"
proof (induction u ch rule: raw_loop.induct)
  case (1 u ch)
  show ?case
  proof (cases "byte_at (data u) ch")
    case None
    then show ?thesis by (subst raw_loop.simps) simp
  next
    case (Some c)
    with "1.IH" show ?thesis by (subst raw_loop.simps) auto
  qed
qed

lemma raw_not_fatal: "raw u \<noteq> Inl (Fatal m)"
  by (auto simp: raw_def Let_def raw_loop_not_fatal split: option.splits if_splits)

lemma next_ch_not_fatal: "next_ch u \<noteq> Inl (Fatal m)"
proof (induction u rule: next_ch.induct)
  case (1 u)
  show ?case
  proof (cases "raw u")
    case (Inl e)
    with raw_not_fatal [of u m] show ?thesis by (subst next_ch.simps) simp
  next
    case (Inr p)
    obtain ch u1 where p: "p = (ch, u1)" by (cases p)
    with Inr "1.IH" show ?thesis by (subst next_ch.simps) auto
  qed
qed

lemma token_string_fatal: "token_string u b = Inl (Fatal m) \<Longrightarrow> lexical_error m"
proof (induction u b rule: token_string.induct)
  case (1 u b)
  show ?case
  proof (cases "raw u")
    case (Inl e)
    with "1.prems" raw_not_fatal [of u m] show ?thesis
      by (subst (asm) token_string.simps) simp
  next
    case (Inr p)
    obtain ch u1 where p: "p = (ch, u1)" by (cases p)
    with Inr "1.prems" "1.IH" show ?thesis
      by (subst (asm) token_string.simps) (auto simp: lexical_error_def split: if_splits)
  qed
qed

lemma text_loop_not_fatal: "text_loop u ch \<noteq> Inl (Fatal m)"
proof (induction u ch rule: text_loop.induct)
  case (1 u ch)
  show ?case
  proof (cases "raw u")
    case (Inl e)
    with raw_not_fatal [of u m] show ?thesis by (subst text_loop.simps) simp
  next
    case (Inr p)
    obtain c u1 where p: "p = (c, u1)" by (cases p)
    with Inr "1.IH" show ?thesis by (subst text_loop.simps) auto
  qed
qed

lemma number_loop_fatal: "number_loop u number ch = Inl (Fatal m) \<Longrightarrow> lexical_error m"
proof (induction u number ch rule: number_loop.induct)
  case (1 u number ch)
  show ?case
  proof (cases "raw u")
    case (Inl e)
    with "1.prems" raw_not_fatal [of u m] show ?thesis
      by (subst (asm) number_loop.simps) (simp split: if_splits)
  next
    case (Inr p)
    obtain c u1 where p: "p = (c, u1)" by (cases p)
    with Inr "1.prems" "1.IH" show ?thesis
      by (subst (asm) number_loop.simps) (auto simp: lexical_error_def split: if_splits)
  qed
qed

lemma lex_token_fatal: "lex_token u = Inl (Fatal m) \<Longrightarrow> lexical_error m"
  by (auto simp: lex_token_def Let_def token_text_def token_number_def lexical_error_def [of "''Unknown character: %c (%d)''"]
                 next_ch_not_fatal text_loop_not_fatal
           split: if_splits sum.splits dest: token_string_fatal number_loop_fatal)

lemma token_consume_fatal: "token_consume u k = Inl (Fatal m) \<Longrightarrow> lexical_error m"
  by (auto simp: token_consume_def token_eat_def lex_next_def split: if_splits sum.splits
           dest: lex_token_fatal)

lemma find_loop_fatal: "find_loop u cur = Inl (Fatal m) \<Longrightarrow> lexical_error m"
proof (induction u cur rule: find_loop.induct)
  case (1 u cur)
  show ?case
  proof (cases "token_consume u TOKEN_TEXT")
    case (Inl e)
    with "1.prems" show ?thesis
      by (subst (asm) find_loop.simps) (auto dest: token_consume_fatal)
  next
    case (Inr p)
    obtain x u1 where p: "p = (x, u1)" by (cases p)
    with Inr "1.prems" "1.IH" show ?thesis
      by (subst (asm) find_loop.simps)
         (auto split: option.splits node_ptr.splits if_splits)
  qed
qed

lemma y_find_unit_fatal: "y_find_unit lit y path = Inl (Fatal m) \<Longrightarrow> lexical_error m"
  by (auto simp: y_find_unit_def Let_def lex_next_def split: sum.splits
           dest: lex_token_fatal find_loop_fatal)

lemma y_find_fatal: "y_find y path = Inl (Fatal m) \<Longrightarrow> lexical_error m"
  by (auto simp: y_find_def y_find_unit_def Let_def lex_next_def split: sum.splits
           dest: lex_token_fatal find_loop_fatal)

section \<open>The lexer and the parser on well-formed source text\<close>

lemma raw_step:
  "byte_at (data u) (cursor u) = Some c \<Longrightarrow>
     \<not> (c = CHR ''/'' \<and> byte_at (data u) (Suc (cursor u)) = Some (CHR ''/'')) \<Longrightarrow>
     raw u = Inr (cursor u, u\<lparr>cursor := Suc (cursor u)\<rparr>)"
  by (auto simp: raw_def Let_def)

lemma unread_data: "unread u rest \<Longrightarrow> data u = take (cursor u) (data u) @ rest \<and> cursor u = length (take (cursor u) (data u))"
  by (auto simp: unread_def)

lemma lex_token_blank:
  assumes "byte_at (data u) (cursor u) = Some (CHR '' '')" "cursor u < length_u u"
  shows "lex_token u = lex_token (u\<lparr>cursor := Suc (cursor u)\<rparr>)"
  using assms next_ch_space [OF assms(1)]
  by (simp add: lex_token_def)

lemma lex_token_struct:
  assumes "byte_at (data u) (cursor u) = Some c" "c = CHR ''{'' \<or> c = CHR ''}'' \<or> c = CHR ''@''"
    "cursor u \<le> length_u u"
  shows "\<exists>t. lex_token u = Inr (t, u\<lparr>cursor := Suc (cursor u)\<rparr>) \<and> kind t = of_char c \<and> value_t t = Val_none"
proof -
  from assms(2) have "c \<noteq> CHR ''/''" "c \<noteq> CHR 0x0A" "c \<noteq> CHR 0x09" "c \<noteq> CHR '' ''" by auto
  from next_ch_plain [OF assms(1) this]
  have n: "next_ch u = Inr (cursor u, u\<lparr>cursor := Suc (cursor u)\<rparr>)" .
  from assms(1) have d: "deref (u\<lparr>cursor := Suc (cursor u)\<rparr>) (cursor u) = c"
    by (simp add: deref_byte_at)
  from n d assms(2,3) show ?thesis
    by (auto simp: lex_token_def Let_def token_new_def TOKEN_TEXT_def TOKEN_STRING_def)
qed

lemma token_new_cursor: "token_new (u\<lparr>cursor := x\<rparr>) k b e = token_new u k b e"
  by (simp add: token_new_def source_f_def)

lemma byte_at_next:
  "byte_at (pre @ c # rest) (Suc (length pre)) = Some (case rest of [] \<Rightarrow> CHR 0x00 | x # _ \<Rightarrow> x)"
  using byte_at_append [of "pre @ [c]" rest] by simp

lemma token_string_body:
  "data u = pre @ s @ CHR 0x22 # r \<Longrightarrow> cursor u = length pre \<Longrightarrow> CHR 0x22 \<notin> set s
     \<Longrightarrow> CHR 0x0A \<notin> set s \<Longrightarrow> no_marker s \<Longrightarrow>
     token_string u b
       = Inr (token_new u TOKEN_STRING (Some (b + 1)) (Some (length pre + length s)),
              u\<lparr>cursor := Suc (length pre + length s)\<rparr>)"
proof (induction s arbitrary: pre u)
  case Nil
  then have b: "byte_at (data u) (cursor u) = Some (CHR 0x22)"
    using byte_at_append [of pre "CHR 0x22 # r"] by simp
  from raw_step [OF b] have r: "raw u = Inr (cursor u, u\<lparr>cursor := Suc (cursor u)\<rparr>)" by simp
  from b have "deref (u\<lparr>cursor := Suc (cursor u)\<rparr>) (cursor u) = CHR 0x22"
    by (simp add: deref_byte_at)
  with r Nil show ?case
    by (subst token_string.simps) (simp add: token_new_cursor)
next
  case (Cons c s)
  from Cons.prems have b: "byte_at (data u) (cursor u) = Some c"
    using byte_at_append [of pre "c # s @ CHR 0x22 # r"] by simp
  from Cons.prems have n: "byte_at (data u) (Suc (cursor u))
      = Some (case s @ CHR 0x22 # r of [] \<Rightarrow> CHR 0x00 | x # _ \<Rightarrow> x)"
    using byte_at_next [of pre c "s @ CHR 0x22 # r"] by simp
  have "\<not> (c = CHR ''/'' \<and> byte_at (data u) (Suc (cursor u)) = Some (CHR ''/''))"
    using n Cons.prems(5) by (cases s) auto
  from raw_step [OF b this] have r: "raw u = Inr (cursor u, u\<lparr>cursor := Suc (cursor u)\<rparr>)" .
  from b have d: "deref (u\<lparr>cursor := Suc (cursor u)\<rparr>) (cursor u) = c"
    by (simp add: deref_byte_at)
  from Cons.prems have c: "c \<noteq> CHR 0x22" "c \<noteq> CHR 0x0A" by auto
  from Cons.prems(5) have nm: "no_marker s" by (cases s) auto
  have "token_string (u\<lparr>cursor := Suc (cursor u)\<rparr>) b
          = Inr (token_new (u\<lparr>cursor := Suc (cursor u)\<rparr>) TOKEN_STRING (Some (b + 1))
                   (Some (length (pre @ [c]) + length s)),
                 u\<lparr>cursor := Suc (cursor u)\<rparr>\<lparr>cursor := Suc (length (pre @ [c]) + length s)\<rparr>)"
    using Cons.prems nm by (intro Cons.IH) auto
  with r d c show ?case
    by (subst token_string.simps) (simp add: token_new_cursor)
qed

lemma isdigit_not_special:
  "isdigit c \<Longrightarrow> c \<noteq> CHR ''/'' \<and> c \<noteq> CHR ''.'' \<and> c \<noteq> CHR 0x00 \<and> c \<noteq> CHR '' '' \<and> c \<noteq> CHR 0x0A
     \<and> c \<noteq> CHR 0x09 \<and> c \<noteq> CHR 0x22 \<and> c \<noteq> CHR ''{'' \<and> c \<noteq> CHR ''}'' \<and> c \<noteq> CHR ''@''
     \<and> c \<noteq> CHR ''_'' \<and> \<not> isalpha c"
  by (auto simp: isdigit_def isalpha_def Let_def)

lemma not_isdigit: "\<not> isdigit (CHR '' '')" "\<not> isdigit (CHR 0x00)" "\<not> isdigit (CHR ''.'')"
  by (auto simp: isdigit_def)

text \<open>The loop of \<open>token_number\<close> at a digit or point that digits and then a blank or the end follow.\<close>

lemma number_loop_digits:
  "data u = pre @ c # fs @ rest \<Longrightarrow> ch = length pre \<Longrightarrow> cursor u = Suc ch
     \<Longrightarrow> isdigit c \<or> c = CHR ''.'' \<Longrightarrow> list_all isdigit fs \<Longrightarrow> rest = [] \<or> hd rest = CHR '' ''
     \<Longrightarrow> number_loop u k ch = Inr (k, u\<lparr>cursor := Suc (Suc ch) + length fs\<rparr>)"
proof (induction fs arbitrary: pre c ch u)
  case Nil
  let ?u1 = "u\<lparr>cursor := Suc (cursor u)\<rparr>"
  let ?n = "case rest of [] \<Rightarrow> CHR 0x00 | x # _ \<Rightarrow> x"
  from Nil have dc: "deref u ch = c"
    using byte_at_append [of pre "c # rest"] by (simp add: deref_byte_at)
  from Nil have b: "byte_at (data u) (cursor u) = Some ?n"
    using byte_at_next [of pre c rest] by simp
  from Nil have n: "?n = CHR 0x00 \<or> ?n = CHR '' ''" by (cases rest) auto
  then have "?n \<noteq> CHR ''/''" by auto
  from raw_plain [OF b this] have r: "raw u = Inr (cursor u, ?u1)" .
  from b have d1: "deref ?u1 (cursor u) = ?n" by (simp add: deref_byte_at)
  from n have stop: "\<not> (isdigit ?n \<or> ?n = CHR ''_'' \<or> ?n = CHR ''.'')"
    by (auto simp: isdigit_def)
  from d1 stop have "number_loop ?u1 k (cursor u) = Inr (k, ?u1)"
    by (subst number_loop.simps) simp
  with r dc d1 n Nil show ?case
    by (subst number_loop.simps) auto
next
  case (Cons f fs)
  let ?u1 = "u\<lparr>cursor := Suc (cursor u)\<rparr>"
  from Cons.prems have dc: "deref u ch = c"
    using byte_at_append [of pre "c # (f # fs) @ rest"] by (simp add: deref_byte_at)
  from Cons.prems have b: "byte_at (data u) (cursor u) = Some f"
    using byte_at_next [of pre c "(f # fs) @ rest"] by simp
  from Cons.prems have f: "isdigit f" by simp
  from raw_plain [OF b] isdigit_not_special [OF f] have r: "raw u = Inr (cursor u, ?u1)" by simp
  from b have d1: "deref ?u1 (cursor u) = f" by (simp add: deref_byte_at)
  have "number_loop ?u1 k (Suc ch) = Inr (k, ?u1\<lparr>cursor := Suc (Suc (Suc ch)) + length fs\<rparr>)"
    using Cons.prems f by (intro Cons.IH [where pre = "pre @ [c]" and c = f]) auto
  with r dc d1 isdigit_not_special [OF f] Cons.prems show ?case
    by (subst number_loop.simps) auto
qed

lemma number_loop_decimal:
  "data u = pre @ c # ds @ CHR ''.'' # fs @ rest \<Longrightarrow> ch = length pre \<Longrightarrow> cursor u = Suc ch
     \<Longrightarrow> isdigit c \<Longrightarrow> list_all isdigit ds \<Longrightarrow> list_all isdigit fs
     \<Longrightarrow> rest = [] \<or> hd rest = CHR '' ''
     \<Longrightarrow> number_loop u Y_INTEGER ch
           = Inr (Y_DECIMAL, u\<lparr>cursor := Suc (Suc ch) + length ds + Suc (length fs)\<rparr>)"
proof (induction ds arbitrary: pre c ch u)
  case Nil
  let ?u1 = "u\<lparr>cursor := Suc (cursor u)\<rparr>"
  from Nil have dc: "deref u ch = c"
    using byte_at_append [of pre "c # CHR ''.'' # fs @ rest"] by (simp add: deref_byte_at)
  from Nil have b: "byte_at (data u) (cursor u) = Some (CHR ''.'')"
    using byte_at_next [of pre c "CHR ''.'' # fs @ rest"] by simp
  from raw_plain [OF b] have r: "raw u = Inr (cursor u, ?u1)" by simp
  from b have d1: "deref ?u1 (cursor u) = CHR ''.''" by (simp add: deref_byte_at)
  have "number_loop ?u1 Y_DECIMAL (Suc ch) = Inr (Y_DECIMAL, ?u1\<lparr>cursor := Suc (Suc (Suc ch)) + length fs\<rparr>)"
    using Nil by (intro number_loop_digits [where pre = "pre @ [c]" and c = "CHR ''.''" and rest = rest]) auto
  with r dc d1 Nil show ?case
    by (subst number_loop.simps) auto
next
  case (Cons d ds)
  let ?u1 = "u\<lparr>cursor := Suc (cursor u)\<rparr>"
  from Cons.prems have dc: "deref u ch = c"
    using byte_at_append [of pre "c # (d # ds) @ CHR ''.'' # fs @ rest"] by (simp add: deref_byte_at)
  from Cons.prems have b: "byte_at (data u) (cursor u) = Some d"
    using byte_at_next [of pre c "(d # ds) @ CHR ''.'' # fs @ rest"] by simp
  from Cons.prems have f: "isdigit d" by simp
  from raw_plain [OF b] isdigit_not_special [OF f] have r: "raw u = Inr (cursor u, ?u1)" by simp
  from b have d1: "deref ?u1 (cursor u) = d" by (simp add: deref_byte_at)
  have "number_loop ?u1 Y_INTEGER (Suc ch)
          = Inr (Y_DECIMAL, ?u1\<lparr>cursor := Suc (Suc (Suc ch)) + length ds + Suc (length fs)\<rparr>)"
    using Cons.prems f by (intro Cons.IH [where pre = "pre @ [c]" and c = d]) auto
  with r dc d1 isdigit_not_special [OF f] Cons.prems show ?case
    by (subst number_loop.simps) auto
qed

lemma takeWhile_run:
  "list_all P xs \<Longrightarrow> ys = [] \<or> \<not> P (hd ys) \<Longrightarrow> takeWhile P (xs @ ys) = xs"
  by (induction xs) (auto simp: takeWhile_eq_Nil_iff)

lemma strtoull_run:
  assumes "list_all isdigit ds" "rest = [] \<or> hd rest = CHR '' ''"
  shows "strtoull (pre @ ds @ rest) (length pre) = strtoull ds 0"
proof -
  from assms(2) have "rest = [] \<or> \<not> isdigit (hd rest)" by (auto simp: not_isdigit)
  from takeWhile_run [OF assms(1) this] have a: "takeWhile isdigit (ds @ rest) = ds" .
  from assms(1) have b: "takeWhile isdigit ds = ds" by (simp add: list_all_iff)
  show ?thesis by (simp add: strtoull_def strtoull_digits_def a b)
qed

lemma strtod_text_run:
  assumes "list_all isdigit ds" "list_all isdigit fs" "rest = [] \<or> hd rest = CHR '' ''"
  shows "strtod_text (pre @ ds @ CHR ''.'' # fs @ rest) (length pre) = ds @ CHR ''.'' # fs"
proof -
  let ?r = "ds @ CHR ''.'' # fs @ rest"
  have i: "int_part ?r = ds"
    unfolding int_part_def using takeWhile_run [OF assms(1), of "CHR ''.'' # fs @ rest"]
    by (simp add: not_isdigit)
  from assms(3) have "rest = [] \<or> \<not> isdigit (hd rest)" by (auto simp: not_isdigit)
  from takeWhile_run [OF assms(2) this] i have f: "frac_part ?r = CHR ''.'' # fs"
    by (simp add: frac_part_def)
  from assms(3) i f have "exp_part ?r = []"
    by (cases rest) (auto simp: exp_part_def)
  with i f show ?thesis by (simp add: strtod_text_def)
qed

lemma token_number_int:
  assumes "data u = pre @ ds @ rest" "cursor u = Suc (length pre)" "ds \<noteq> []" "list_all isdigit ds"
    and "rest = [] \<or> hd rest = CHR '' ''"
  shows "\<exists>t. token_number u (length pre) = Inr (t, u\<lparr>cursor := length pre + length ds\<rparr>)
              \<and> kind t = TOKEN_NUMBER \<and> value_t t = Val_integer (strtoull ds 0)"
proof -
  from assms(3) obtain c fs where ds: "ds = c # fs" by (cases ds) auto
  with assms have "number_loop u Y_INTEGER (length pre)
      = Inr (Y_INTEGER, u\<lparr>cursor := Suc (Suc (length pre)) + length fs\<rparr>)"
    by (intro number_loop_digits [where pre = pre and c = c and rest = rest]) auto
  moreover have "strtoull (data u) (length pre) = strtoull ds 0"
    using assms(1) strtoull_run [OF assms(4,5)] by simp
  ultimately show ?thesis using ds
    by (simp add: token_number_def Let_def token_new_def)
qed

lemma token_number_dec:
  assumes "data u = pre @ ds @ CHR ''.'' # fs @ rest" "cursor u = Suc (length pre)" "ds \<noteq> []"
    and "list_all isdigit ds" "list_all isdigit fs" "rest = [] \<or> hd rest = CHR '' ''"
  shows "\<exists>t. token_number u (length pre)
                 = Inr (t, u\<lparr>cursor := length pre + length ds + Suc (length fs)\<rparr>)
              \<and> kind t = TOKEN_NUMBER \<and> value_t t = Val_decimal (ds @ CHR ''.'' # fs)"
proof -
  from assms(3) obtain c ds' where ds: "ds = c # ds'" by (cases ds) auto
  with assms have "number_loop u Y_INTEGER (length pre)
      = Inr (Y_DECIMAL, u\<lparr>cursor := Suc (Suc (length pre)) + length ds' + Suc (length fs)\<rparr>)"
    by (intro number_loop_decimal [where pre = pre and c = c and rest = rest]) auto
  moreover have "strtod_text (data u) (length pre) = ds @ CHR ''.'' # fs"
    using assms(1) strtod_text_run [OF assms(4,5,6)] by simp
  ultimately show ?thesis using ds
    by (simp add: token_number_def Let_def token_new_def)
qed

text \<open>\<open>lex_token\<close> at an item.\<close>

lemma lex_token_item:
  assumes "item_wf i" "data u = pre @ item_text i @ rest" "cursor u = length pre"
    and "length_u u = length (data u)" "needs_blank i \<longrightarrow> rest = [] \<or> hd rest = CHR '' ''"
  shows "\<exists>t. lex_token u = Inr (t, u\<lparr>cursor := length pre + length (item_text i)\<rparr>)
              \<and> kind t = item_kind i \<and> value_t t = item_value i"
proof -
  from assms(2,3,4) have le: "cursor u \<le> length_u u" by simp
  show ?thesis
  proof (cases i)
  case (I_text s)
  with assms have "lex_token u = Inr (text_token u (length pre) s, u\<lparr>cursor := length pre + length s\<rparr>)"
    by (intro lex_token_ident) auto
  with I_text show ?thesis by (simp add: text_token_def)
next
  case (I_int ds)
  with assms(1) obtain c fs where ds: "ds = c # fs" and c: "isdigit c" by (cases ds) auto
  let ?u1 = "u\<lparr>cursor := Suc (cursor u)\<rparr>"
  from assms(2,3) I_int ds have b: "byte_at (data u) (cursor u) = Some c"
    using byte_at_append [of pre "ds @ rest"] by simp
  from next_ch_plain [OF b] isdigit_not_special [OF c]
  have n: "next_ch u = Inr (cursor u, ?u1)" by simp
  from b have d: "deref ?u1 (cursor u) = c" by (simp add: deref_byte_at)
  from assms I_int have "\<exists>t. token_number ?u1 (length pre) = Inr (t, ?u1\<lparr>cursor := length pre + length ds\<rparr>)
              \<and> kind t = TOKEN_NUMBER \<and> value_t t = Val_integer (strtoull ds 0)"
    by (intro token_number_int [where rest = rest]) auto
  with n d c isdigit_not_special [OF c] le assms(3) I_int show ?thesis
    by (auto simp: lex_token_def Let_def)
next
  case (I_dec ds fs)
  with assms(1) obtain c ds' where ds: "ds = c # ds'" and c: "isdigit c" by (cases ds) auto
  let ?u1 = "u\<lparr>cursor := Suc (cursor u)\<rparr>"
  from assms(2,3) I_dec ds have b: "byte_at (data u) (cursor u) = Some c"
    using byte_at_append [of pre "ds @ CHR ''.'' # fs @ rest"] by simp
  from next_ch_plain [OF b] isdigit_not_special [OF c]
  have n: "next_ch u = Inr (cursor u, ?u1)" by simp
  from b have d: "deref ?u1 (cursor u) = c" by (simp add: deref_byte_at)
  from assms I_dec have "\<exists>t. token_number ?u1 (length pre)
                 = Inr (t, ?u1\<lparr>cursor := length pre + length ds + Suc (length fs)\<rparr>)
              \<and> kind t = TOKEN_NUMBER \<and> value_t t = Val_decimal (ds @ CHR ''.'' # fs)"
    by (intro token_number_dec [where rest = rest]) auto
  with n d c isdigit_not_special [OF c] le assms(3) I_dec show ?thesis
    by (auto simp: lex_token_def Let_def)
next
  case (I_str s)
  let ?u1 = "u\<lparr>cursor := Suc (cursor u)\<rparr>"
  from assms(2,3) I_str have b: "byte_at (data u) (cursor u) = Some (CHR 0x22)"
    using byte_at_append [of pre "CHR 0x22 # s @ CHR 0x22 # rest"] by simp
  from next_ch_plain [OF b] have n: "next_ch u = Inr (cursor u, ?u1)" by simp
  from b have d: "deref ?u1 (cursor u) = CHR 0x22" by (simp add: deref_byte_at)
  from assms I_str have ts: "token_string ?u1 (length pre)
       = Inr (token_new ?u1 TOKEN_STRING (Some (length pre + 1)) (Some (length (pre @ [CHR 0x22]) + length s)),
              ?u1\<lparr>cursor := Suc (length (pre @ [CHR 0x22]) + length s)\<rparr>)"
    by (intro token_string_body [where r = rest]) (auto simp: str_body_def)
  have "slice (data u) (Some (Suc (length pre))) (Some (Suc (length pre + length s))) = s"
    using assms(2) I_str by (simp add: slice_def)
  with n d ts le assms(3) I_str show ?thesis
    by (auto simp: lex_token_def Let_def token_new_def)
next
  case I_open
  with assms(2,3) have b: "byte_at (data u) (cursor u) = Some (CHR ''{'')"
    using byte_at_append [of pre "CHR ''{'' # rest"] by simp
  from lex_token_struct [OF b] le assms(3) I_open show ?thesis by simp
next
  case I_close
  with assms(2,3) have b: "byte_at (data u) (cursor u) = Some (CHR ''}'')"
    using byte_at_append [of pre "CHR ''}'' # rest"] by simp
  from lex_token_struct [OF b] le assms(3) I_close show ?thesis by simp
next
  case I_at
  with assms(2,3) have b: "byte_at (data u) (cursor u) = Some (CHR ''@'')"
    using byte_at_append [of pre "CHR ''@'' # rest"] by simp
  from lex_token_struct [OF b] le assms(3) I_at show ?thesis by simp
qed
qed

lemma render_head: "blank_first r \<Longrightarrow> render r = [] \<or> hd (render r) = CHR '' ''"
  by (cases r) (auto simp: blank_first_def)

lemma st_kind: "st u L \<Longrightarrow> kind (current u) = first_kind L"
  by (cases L) (auto simp: first_kind_def)

lemma lex_token_items:
  assumes "items_ok ((sp, i) # r)" "unread u (render ((sp, i) # r))"
  shows "\<exists>t u'. lex_token u = Inr (t, u') \<and> kind t = item_kind i \<and> value_t t = item_value i
                 \<and> unread u' (render r)"
proof -
  define pre where "pre = take (cursor u) (data u)"
  define bl where "bl = (if sp then [CHR '' ''] else [])"
  from assms(2) have d: "data u = pre @ bl @ item_text i @ render r"
    and c: "cursor u = length pre" and l: "length_u u = length (data u)"
    using unread_data [of u "render ((sp, i) # r)"] by (simp_all add: pre_def bl_def unread_def)
  from assms(1) have wf: "item_wf i" and nb: "needs_blank i \<longrightarrow> render r = [] \<or> hd (render r) = CHR '' ''"
    using render_head [of r] by (auto simp: blank_first_def split: list.splits)
  define u0 where "u0 = u\<lparr>cursor := length (pre @ bl)\<rparr>"
  have e: "lex_token u = lex_token u0"
  proof (cases sp)
    case False
    have "u\<lparr>cursor := cursor u\<rparr> = u" by simp
    with False show ?thesis unfolding u0_def bl_def c by simp
  next
    case True
    with d c have "byte_at (data u) (cursor u) = Some (CHR '' '')"
      using byte_at_append [of pre "CHR '' '' # item_text i @ render r"] by (simp add: bl_def)
    moreover from d c l True have "cursor u < length_u u" by (simp add: bl_def)
    ultimately have "lex_token u = lex_token (u\<lparr>cursor := Suc (cursor u)\<rparr>)" by (rule lex_token_blank)
    with True c show ?thesis by (simp add: u0_def bl_def)
  qed
  have d0: "data u0 = (pre @ bl) @ item_text i @ render r" using d by (simp add: u0_def)
  have "\<exists>t. lex_token u0 = Inr (t, u0\<lparr>cursor := length (pre @ bl) + length (item_text i)\<rparr>)
              \<and> kind t = item_kind i \<and> value_t t = item_value i"
    using wf d0 l nb by (intro lex_token_item [where rest = "render r"]) (auto simp: u0_def)
  then obtain t where t: "lex_token u0 = Inr (t, u0\<lparr>cursor := length (pre @ bl) + length (item_text i)\<rparr>)"
    "kind t = item_kind i" "value_t t = item_value i" by blast
  let ?u' = "u0\<lparr>cursor := length (pre @ bl) + length (item_text i)\<rparr>"
  from d0 have "data ?u' = ((pre @ bl) @ item_text i) @ render r" by simp
  then have "drop (length ((pre @ bl) @ item_text i)) (data ?u') = render r"
    by (metis append_eq_conv_conj)
  with d l have "unread ?u' (render r)" by (simp add: unread_def u0_def)
  with e t show ?thesis by auto
qed

lemma lex_next_frame:
  "lex_next u = Inr (t, u') \<Longrightarrow> current u' = t \<and> previous u' = current u"
  by (auto simp: lex_next_def split: sum.splits)

lemma unread_current: "unread (u\<lparr>previous := p, current := t\<rparr>) rest = unread u rest"
  by (simp add: unread_def)

text \<open>Eating a token moves the state to the next item.\<close>

lemma token_eat_items:
  assumes "st u L" "items_ok (tl L)"
  shows "\<exists>u'. token_eat u = Inr (current u, u') \<and> st u' (tl L)"
proof (cases L)
  case Nil
  with assms(1) have "lex_token u = Inr (token_new u TOKEN_NONE None None, u)"
    by (simp add: lex_token_def)
  then have "token_eat u = Inr (current u, u\<lparr>previous := current u, current := token_new u TOKEN_NONE None None\<rparr>)"
    by (simp add: token_eat_def lex_next_def)
  with Nil assms(1) show ?thesis by (simp add: token_new_def)
next
  case (Cons x r)
  obtain sp0 i0 where x: "x = (sp0, i0)" by (cases x)
  with Cons assms(1) have un: "unread u (render r)" by simp
  show ?thesis
  proof (cases r)
    case Nil
    with un have c: "cursor u = length (data u)" "cursor u \<le> length_u u" "length_u u = length (data u)"
      by (auto simp: unread_def)
    from lex_token_end [OF c(1,2)]
    have "token_eat u = Inr (current u, u\<lparr>cursor := Suc (cursor u), previous := current u,
            current := token_new u TOKEN_NONE (Some (cursor u)) (Some (cursor u))\<rparr>)"
      by (simp add: token_eat_def lex_next_def)
    with Nil Cons c show ?thesis by (simp add: token_new_def)
  next
    case (Cons y r')
    obtain sp i where y: "y = (sp, i)" by (cases y)
    from assms(2) \<open>L = x # r\<close> Cons y have ok: "items_ok ((sp, i) # r')" by simp
    from un Cons y have "unread u (render ((sp, i) # r'))" by simp
    from lex_token_items [OF ok this] obtain t u' where
      t: "lex_token u = Inr (t, u')" "kind t = item_kind i" "value_t t = item_value i"
      "unread u' (render r')" by blast
    then have "token_eat u = Inr (current u, u'\<lparr>previous := current u, current := t\<rparr>)"
      by (simp add: token_eat_def lex_next_def)
    with t Cons y \<open>L = x # r\<close> show ?thesis by (simp add: unread_current)
  qed
qed

lemma token_consume_miss: "kind (current u) \<noteq> k \<Longrightarrow> token_consume u k = Inr (None, u)"
  by (simp add: token_consume_def)

lemma token_consume_items:
  assumes "st u L" "items_ok (tl L)" "first_kind L = k"
  shows "\<exists>u'. token_consume u k = Inr (Some (current u), u') \<and> st u' (tl L)"
  using token_eat_items [OF assms(1,2)] st_kind [OF assms(1)] assms(3)
  by (auto simp: token_consume_def)

lemma token_expect_items:
  assumes "st u L" "items_ok (tl L)" "first_kind L = k"
  shows "\<exists>u'. token_expect u k = Inr (current u, u') \<and> st u' (tl L)"
  using token_eat_items [OF assms(1,2)] st_kind [OF assms(1)] assms(3)
  by (auto simp: token_expect_def)

lemma node_items_tail: "node_items t = (True, I_text (s_name t)) # tail_items t"
  by (cases t) (simp add: tail_items_def)

lemma items_ok_append:
  "items_ok xs \<Longrightarrow> items_ok ys \<Longrightarrow> blank_first ys \<Longrightarrow> items_ok (xs @ ys)"
proof (induction xs)
  case Nil
  then show ?case by simp
next
  case (Cons x xs)
  obtain sp i where x: "x = (sp, i)" by (cases x)
  with Cons show ?case
    by (cases xs; cases ys) (auto simp: blank_first_def)
qed

lemma blank_first_append: "blank_first xs \<Longrightarrow> blank_first ys \<Longrightarrow> blank_first (xs @ ys)"
  by (cases xs) (auto simp: blank_first_def)

lemma notes_items_ok: "list_all ident ns \<Longrightarrow> items_ok (notes_items ns) \<and> blank_first (notes_items ns)"
  by (induction ns) (auto simp: notes_items_def blank_first_def split: list.splits)

lemma node_items_blank: "blank_first (node_items t)"
  by (cases t) (simp add: blank_first_def)

lemma concat_items_ok:
  "\<forall>c\<in>set cs. items_ok (node_items c) \<Longrightarrow> items_ok ys \<Longrightarrow> blank_first ys
     \<Longrightarrow> items_ok (concat (map node_items cs) @ ys) \<and> blank_first (concat (map node_items cs) @ ys)"
proof (induction cs)
  case Nil
  then show ?case by simp
next
  case (Cons c cs)
  then have "items_ok (concat (map node_items cs) @ ys)" "blank_first (concat (map node_items cs) @ ys)"
    by auto
  with Cons.prems(1) have "items_ok (node_items c @ concat (map node_items cs) @ ys)"
    using items_ok_append [of "node_items c" "concat (map node_items cs) @ ys"] by auto
  moreover have "blank_first (node_items c @ concat (map node_items cs) @ ys)"
    by (simp add: node_items_tail blank_first_def)
  ultimately show ?case by simp
qed

lemma node_items_ok: "node_wf t \<Longrightarrow> items_ok (node_items t)"
proof (induction t)
  case (S_node nm v ns)
  have n: "items_ok (notes_items ns)" "blank_first (notes_items ns)"
    using S_node.prems notes_items_ok [of ns] by auto
  have v: "items_ok (value_items (map_src_value node_items v) @ notes_items ns)
           \<and> blank_first (value_items (map_src_value node_items v) @ notes_items ns)"
  proof (cases v)
    case S_none
    with n show ?thesis by simp
  next
    case (S_list cs)
    with S_node have c: "\<forall>c\<in>set cs. items_ok (node_items c)"
      by (auto simp: list_all_iff)
    have "items_ok ((True, I_close) # notes_items ns)" "blank_first ((True, I_close) # notes_items ns)"
      using n by (auto simp: blank_first_def)
    from concat_items_ok [OF c this]
    have "items_ok (concat (map node_items cs) @ (True, I_close) # notes_items ns)" by simp
    with S_list show ?thesis by (simp add: blank_first_def)
  next
    case (S_int ds)
    with S_node.prems n show ?thesis
      by (auto simp: blank_first_def split: list.splits)
  next
    case (S_dec ds fs)
    with S_node.prems n show ?thesis
      by (auto simp: blank_first_def split: list.splits)
  next
    case (S_str s)
    with S_node.prems n show ?thesis
      by (auto simp: blank_first_def split: list.splits)
  qed
  with S_node.prems show ?case
    by (auto simp: blank_first_def split: list.splits)
qed

lemma tail_items_ok:
  assumes "node_wf t" "items_ok its" "blank_first its"
  shows "items_ok (tail_items t @ its)"
proof -
  from items_ok_append [OF node_items_ok [OF assms(1)] assms(2,3)]
  show ?thesis by (simp add: node_items_tail)
qed

lemma item_kinds:
  "TOKEN_TEXT \<noteq> of_char (CHR ''@'')" "TOKEN_TEXT \<noteq> of_char (CHR ''{'')" "TOKEN_TEXT \<noteq> of_char (CHR ''}'')"
  "TOKEN_TEXT \<noteq> TOKEN_NONE" "TOKEN_TEXT \<noteq> TOKEN_NUMBER" "TOKEN_TEXT \<noteq> TOKEN_STRING"
  "TOKEN_NUMBER \<noteq> of_char (CHR ''{'')" "TOKEN_STRING \<noteq> of_char (CHR ''{'')"
  "TOKEN_STRING \<noteq> TOKEN_NUMBER" "TOKEN_NUMBER \<noteq> TOKEN_NONE" "TOKEN_STRING \<noteq> TOKEN_NONE"
  "(of_char (CHR ''@'') :: token) \<noteq> of_char (CHR ''{'')" "of_char (CHR ''@'') \<noteq> TOKEN_NUMBER"
  "of_char (CHR ''@'') \<noteq> TOKEN_STRING" "of_char (CHR ''}'') \<noteq> TOKEN_NONE"
  "of_char (CHR ''{'') \<noteq> TOKEN_NONE" "of_char (CHR ''@'') \<noteq> TOKEN_NONE"
  by (simp_all add: TOKEN_NONE_def TOKEN_TEXT_def TOKEN_NUMBER_def TOKEN_STRING_def)

lemma parse_note_items:
  "list_all ident ns \<Longrightarrow> st u (notes_items ns @ its) \<Longrightarrow> items_ok its \<Longrightarrow> blank_first its
     \<Longrightarrow> first_kind its \<noteq> of_char (CHR ''@'')
     \<Longrightarrow> \<exists>u'. parse_note u = Inr (map Y_note ns, u') \<and> st u' its"
proof (induction ns arbitrary: u)
  case Nil
  then have "kind (current u) \<noteq> of_char (CHR ''@'')"
    using st_kind [of u its] by (simp add: notes_items_def)
  then have "parse_note u = Inr ([], u)"
    by (subst parse_note.simps) (simp add: token_consume_miss)
  with Nil show ?case by (simp add: notes_items_def)
next
  case (Cons a ns)
  let ?r = "notes_items ns @ its"
  let ?L = "(True, I_at) # (False, I_text a) # ?r"
  from Cons.prems have L: "st u ?L" by (simp add: notes_items_def)
  from Cons.prems notes_items_ok [of ns] have r: "items_ok ?r" "blank_first ?r"
    by (auto intro: items_ok_append blank_first_append)
  with Cons.prems have ok1: "items_ok (tl ?L)"
    by (auto simp: blank_first_def split: list.splits)
  from token_consume_items [OF L ok1, of "of_char (CHR ''@'')"] obtain u1 where
    c: "token_consume u (of_char (CHR ''@'')) = Inr (Some (current u), u1)"
    and s1: "st u1 ((False, I_text a) # ?r)"
    by (auto simp: first_kind_def)
  from r have ok2: "items_ok (tl ((False, I_text a) # ?r))" by simp
  from token_expect_items [OF s1 ok2, of TOKEN_TEXT] obtain u2 where
    e: "token_expect u1 TOKEN_TEXT = Inr (current u1, u2)" and s2: "st u2 ?r"
    by (auto simp: first_kind_def)
  from s1 have v: "value_t (current u1) = Val_string a" by simp
  from Cons.IH [OF _ s2 Cons.prems(3,4,5)] Cons.prems(1) obtain u3 where
    p: "parse_note u2 = Inr (map Y_note ns, u3)" and s3: "st u3 its" by auto
  from c e v p have "parse_note u = Inr (map Y_note (a # ns), u3)"
    by (subst parse_note.simps) (simp add: value_string_def)
  with s3 show ?case by blast
qed

lemma node_finish_items:
  assumes "list_all ident ns" "st u (notes_items ns @ its)" "items_ok its" "blank_first its"
    and "first_kind its \<noteq> of_char (CHR ''@'')"
  shows "\<exists>u'. node_finish nm v u = Inr (Y_node nm (map Y_note ns) v, u') \<and> st u' its"
  using parse_note_items [OF assms] by (auto simp: node_finish_def)

lemma parse_nodes_items:
  assumes "\<And>c u sp its. c \<in> set cs \<Longrightarrow> st u ((sp, I_text (s_name c)) # tail_items c @ its)
             \<Longrightarrow> items_ok its \<Longrightarrow> follow_ok c its
             \<Longrightarrow> \<exists>u'. parse_node u = Inr (node_of c, u') \<and> st u' its"
    and "\<forall>c\<in>set cs. node_wf c"
    and "st u (concat (map node_items cs) @ (True, I_close) # rest)" and "items_ok rest"
  shows "\<exists>u'. parse_nodes u = Inr (map node_of cs, u') \<and> st u' rest"
  using assms
proof (induction cs arbitrary: u)
  case Nil
  from Nil.prems(3) have L: "st u ((True, I_close) # rest)" by simp
  from token_consume_items [OF L, of "of_char (CHR ''}'')"] Nil.prems(4) obtain u1 where
    "token_consume u (of_char (CHR ''}'')) = Inr (Some (current u), u1)" "st u1 rest"
    by (auto simp: first_kind_def)
  then show ?case
    by (subst parse_nodes.simps) simp
next
  case (Cons c cs)
  let ?its = "concat (map node_items cs) @ (True, I_close) # rest"
  from Cons.prems(3) have L: "st u ((True, I_text (s_name c)) # tail_items c @ ?its)"
    by (simp add: node_items_tail [of c])
  from Cons.prems(2) have "\<forall>c\<in>set cs. items_ok (node_items c)"
    by (auto intro: node_items_ok)
  from concat_items_ok [OF this, of "(True, I_close) # rest"] Cons.prems(4)
  have ok: "items_ok ?its" "blank_first ?its" by (auto simp: blank_first_def)
  have fk: "first_kind ?its = TOKEN_TEXT \<or> first_kind ?its = of_char (CHR ''}'')"
    by (cases cs) (auto simp: first_kind_def node_items_tail)
  then have f: "follow_ok c ?its"
    using ok(2) item_kinds by (auto simp: follow_ok_def TOKEN_TEXT_def TOKEN_NUMBER_def TOKEN_STRING_def)
  from Cons.prems(1) [OF _ L ok(1) f] obtain u3 where
    p: "parse_node u = Inr (node_of c, u3)" and s3: "st u3 ?its" by auto
  from Cons.IH [OF Cons.prems(1) _ s3 Cons.prems(4)] Cons.prems(2) obtain u4 where
    q: "parse_nodes u3 = Inr (map node_of cs, u4)" and s4: "st u4 rest" by auto
  from L have k: "kind (current u) = TOKEN_TEXT" by simp
  then have m: "token_consume u (of_char (CHR ''}'')) = Inr (None, u)"
    "token_consume u TOKEN_NONE = Inr (None, u)"
    using item_kinds by (simp_all add: token_consume_miss)
  from m p q have "parse_nodes u = Inr (map node_of (c # cs), u4)"
    by (subst parse_nodes.simps) simp
  with s4 show ?case by blast
qed

text \<open>The parser on the items of a tree: it builds the tree and stops at what follows.\<close>

lemma parse_node_items:
  "node_wf t \<Longrightarrow> st u ((sp, I_text (s_name t)) # tail_items t @ its) \<Longrightarrow> items_ok its
     \<Longrightarrow> follow_ok t its
     \<Longrightarrow> \<exists>u'. parse_node u = Inr (node_of t, u') \<and> st u' its"
proof (induction t arbitrary: u sp its)
  case (S_node nm v ns)
  let ?t = "S_node nm v ns"
  let ?N = "notes_items ns @ its"
  let ?T = "value_items (map_src_value node_items v) @ ?N"
  from S_node.prems(2) have L: "st u ((sp, I_text nm) # ?T)" by (simp add: tail_items_def)
  from S_node.prems(4) have bf: "blank_first its" and fk: "first_kind its \<noteq> of_char (CHR ''@'')"
    by (simp_all add: follow_ok_def)
  from tail_items_ok [OF S_node.prems(1,3) bf] have okT: "items_ok ?T" by (simp add: tail_items_def)
  from S_node.prems(1) have ns: "list_all ident ns" by simp
  from notes_items_ok [OF ns] S_node.prems(3) bf have okN: "items_ok ?N" "blank_first ?N"
    by (auto intro: items_ok_append blank_first_append)
  from token_expect_items [OF L, of TOKEN_TEXT] okT obtain u1 where
    e: "token_expect u TOKEN_TEXT = Inr (current u, u1)" and s1: "st u1 ?T"
    by (auto simp: first_kind_def)
  from L have nmv: "value_string (value_t (current u)) = nm" by (simp add: value_string_def)
  show ?case
  proof (cases v)
    case S_none
    with s1 have s1': "st u1 ?N" by simp
    have "first_kind ?N \<noteq> of_char (CHR ''{'') \<and> first_kind ?N \<noteq> TOKEN_NUMBER \<and> first_kind ?N \<noteq> TOKEN_STRING"
    proof (cases ns)
      case Nil
      with S_none S_node.prems(4) show ?thesis by (simp add: follow_ok_def notes_items_def)
    next
      case (Cons a as)
      then show ?thesis using item_kinds by (simp add: notes_items_def first_kind_def)
    qed
    with st_kind [OF s1'] have m: "token_consume u1 (of_char (CHR ''{'')) = Inr (None, u1)"
      "token_consume u1 TOKEN_NUMBER = Inr (None, u1)" "token_consume u1 TOKEN_STRING = Inr (None, u1)"
      by (simp_all add: token_consume_miss)
    from node_finish_items [OF ns s1' S_node.prems(3) bf fk, of nm Val_none] obtain u' where
      f: "node_finish nm Val_none u1 = Inr (Y_node nm (map Y_note ns) Val_none, u')" and s': "st u' its"
      by blast
    from e m f nmv S_none have "parse_node u = Inr (node_of ?t, u')"
      by (subst parse_node.simps) simp
    with s' show ?thesis by blast
  next
    case (S_list cs)
    let ?C = "concat (map node_items cs) @ (True, I_close) # ?N"
    from s1 S_list have s1': "st u1 ((True, I_open) # ?C)" by simp
    from okT S_list have okC: "items_ok ?C" by simp
    from token_consume_items [OF s1', of "of_char (CHR ''{'')"] okC obtain u2 where
      c: "token_consume u1 (of_char (CHR ''{'')) = Inr (Some (current u1), u2)" and s2: "st u2 ?C"
      by (auto simp: first_kind_def)
    from S_node.prems(1) S_list have wf: "\<forall>c\<in>set cs. node_wf c" by (simp add: list_all_iff)
    have ih: "\<And>c u sp its. c \<in> set cs \<Longrightarrow> st u ((sp, I_text (s_name c)) # tail_items c @ its)
             \<Longrightarrow> items_ok its \<Longrightarrow> follow_ok c its
             \<Longrightarrow> \<exists>u'. parse_node u = Inr (node_of c, u') \<and> st u' its"
      using S_node.IH S_list wf by auto
    have "\<exists>u3. parse_nodes u2 = Inr (map node_of cs, u3) \<and> st u3 ?N"
      by (rule parse_nodes_items [OF _ wf s2 okN(1)]) (rule ih; assumption)
    then obtain u3 where
      p: "parse_nodes u2 = Inr (map node_of cs, u3)" and s3: "st u3 ?N" by blast
    from node_finish_items [OF ns s3 S_node.prems(3) bf fk, of nm "Val_node (map node_of cs)"] obtain u' where
      f: "node_finish nm (Val_node (map node_of cs)) u3
            = Inr (Y_node nm (map Y_note ns) (Val_node (map node_of cs)), u')" and s': "st u' its"
      by blast
    from e c p f nmv S_list have "parse_node u = Inr (node_of ?t, u')"
      by (subst parse_node.simps) simp
    with s' show ?thesis by blast
  next
    case (S_int ds)
    from s1 S_int have s1': "st u1 ((True, I_int ds) # ?N)" by simp
    then have m: "token_consume u1 (of_char (CHR ''{'')) = Inr (None, u1)"
      using item_kinds by (simp add: token_consume_miss)
    from token_consume_items [OF s1', of TOKEN_NUMBER] okN obtain u3 where
      c: "token_consume u1 TOKEN_NUMBER = Inr (Some (current u1), u3)" and s3: "st u3 ?N"
      by (auto simp: first_kind_def)
    from s1' have v: "value_t (current u1) = Val_integer (strtoull ds 0)" by simp
    from node_finish_items [OF ns s3 S_node.prems(3) bf fk, of nm "Val_integer (strtoull ds 0)"] obtain u' where
      f: "node_finish nm (Val_integer (strtoull ds 0)) u3
            = Inr (Y_node nm (map Y_note ns) (Val_integer (strtoull ds 0)), u')" and s': "st u' its"
      by blast
    from e m c v f nmv S_int have "parse_node u = Inr (node_of ?t, u')"
      by (subst parse_node.simps) simp
    with s' show ?thesis by blast
  next
    case (S_dec ds fs)
    from s1 S_dec have s1': "st u1 ((True, I_dec ds fs) # ?N)" by simp
    then have m: "token_consume u1 (of_char (CHR ''{'')) = Inr (None, u1)"
      using item_kinds by (simp add: token_consume_miss)
    from token_consume_items [OF s1', of TOKEN_NUMBER] okN obtain u3 where
      c: "token_consume u1 TOKEN_NUMBER = Inr (Some (current u1), u3)" and s3: "st u3 ?N"
      by (auto simp: first_kind_def)
    from s1' have v: "value_t (current u1) = Val_decimal (ds @ CHR ''.'' # fs)" by simp
    from node_finish_items [OF ns s3 S_node.prems(3) bf fk, of nm "Val_decimal (ds @ CHR ''.'' # fs)"] obtain u' where
      f: "node_finish nm (Val_decimal (ds @ CHR ''.'' # fs)) u3
            = Inr (Y_node nm (map Y_note ns) (Val_decimal (ds @ CHR ''.'' # fs)), u')" and s': "st u' its"
      by blast
    from e m c v f nmv S_dec have "parse_node u = Inr (node_of ?t, u')"
      by (subst parse_node.simps) simp
    with s' show ?thesis by blast
  next
    case (S_str x)
    from s1 S_str have s1': "st u1 ((True, I_str x) # ?N)" by simp
    then have m: "token_consume u1 (of_char (CHR ''{'')) = Inr (None, u1)"
      "token_consume u1 TOKEN_NUMBER = Inr (None, u1)"
      using item_kinds by (simp_all add: token_consume_miss)
    from token_consume_items [OF s1', of TOKEN_STRING] okN obtain u3 where
      c: "token_consume u1 TOKEN_STRING = Inr (Some (current u1), u3)" and s3: "st u3 ?N"
      by (auto simp: first_kind_def)
    from s1' have v: "value_t (current u1) = Val_string x" by simp
    from node_finish_items [OF ns s3 S_node.prems(3) bf fk, of nm "Val_string x"] obtain u' where
      f: "node_finish nm (Val_string x) u3
            = Inr (Y_node nm (map Y_note ns) (Val_string x), u')" and s': "st u' its"
      by blast
    from e m c v f nmv S_str have "parse_node u = Inr (node_of ?t, u')"
      by (subst parse_node.simps) simp
    with s' show ?thesis by blast
  qed
qed

lemma render_append: "render (xs @ ys) = render xs @ render ys"
  by (induction xs) auto

lemma render_notes: "render (notes_items ns) = notes_text ns"
  by (induction ns) (auto simp: notes_items_def notes_text_def)

lemma render_node_items: "render (node_items t) = CHR '' '' # node_text t"
proof (induction t)
  case (S_node nm v ns)
  have "render (value_items (map_src_value node_items v)) = value_text (map_src_value node_text v)"
  proof (cases v)
    case (S_list cs)
    with S_node have "\<forall>c\<in>set cs. render (node_items c) = CHR '' '' # node_text c" by simp
    then have "render (concat (map node_items cs)) = concat (map (\<lambda>c. CHR '' '' # c) (map node_text cs))"
      by (induction cs) (auto simp: render_append)
    with S_list show ?thesis by (simp add: render_append)
  qed simp_all
  then show ?case by (simp add: render_append render_notes)
qed

lemma render_tail_items: "render (tail_items t) = drop (length (s_name t)) (node_text t)"
  using render_node_items [of t] by (cases t) (simp add: tail_items_def render_append)

lemma node_text_tail: "node_text t = s_name t @ render (tail_items t)"
  using render_node_items [of t] by (cases t) (simp add: tail_items_def render_append)

text \<open>
  Loading the text of a well-formed tree gives the tree; with anything after it that the
  node does not take, the end of the unit is missing.
\<close>

lemma y_load_items:
  assumes "node_wf t" "items_ok its" "follow_ok t its"
  shows "\<exists>u1 u2. lex_next (unit_zero\<lparr>data := node_text t @ render its,
                                       length_u := length (node_text t @ render its),
                                       start_u := Some 0\<rparr>) = Inr (current u1, u1)
                 \<and> parse_node u1 = Inr (node_of t, u2) \<and> st u2 its"
proof -
  let ?u0 = "unit_zero\<lparr>data := node_text t @ render its,
                        length_u := length (node_text t @ render its), start_u := Some 0\<rparr>"
  let ?T = "tail_items t @ its"
  from assms(3) have bf: "blank_first its" by (simp add: follow_ok_def)
  from tail_items_ok [OF assms(1,2) bf] have okT: "items_ok ?T" .
  from node_items_ok [OF assms(1)] have "item_wf (I_text (s_name t))"
    by (simp add: node_items_tail)
  with okT have ok: "items_ok ((False, I_text (s_name t)) # ?T)"
    using blank_first_append [OF _ bf, of "tail_items t"] node_items_ok [OF assms(1)]
    by (cases "tail_items t"; cases its) (auto simp: node_items_tail blank_first_def)
  have "unread ?u0 (render ((False, I_text (s_name t)) # ?T))"
    by (simp add: unread_def unit_zero_def render_append node_text_tail)
  from lex_token_items [OF ok this] obtain t0 u' where
    l: "lex_token ?u0 = Inr (t0, u')" and k: "kind t0 = TOKEN_TEXT" "value_t t0 = Val_string (s_name t)"
    and un: "unread u' (render ?T)" by auto
  define u1 where "u1 = u'\<lparr>previous := current ?u0, current := t0\<rparr>"
  from l have ln: "lex_next ?u0 = Inr (current u1, u1)" by (simp add: lex_next_def u1_def)
  from k un have s1: "st u1 ((False, I_text (s_name t)) # ?T)"
    by (simp add: u1_def unread_current)
  from parse_node_items [OF assms(1) s1 assms(2,3)] ln show ?thesis by blast
qed

lemma y_load_node_text:
  assumes "node_wf t"
  shows "y_load_node (node_text t) = Inr (node_of t)"
proof -
  have f: "follow_ok t []"
    using item_kinds by (simp add: follow_ok_def blank_first_def first_kind_def TOKEN_NONE_def TOKEN_NUMBER_def TOKEN_STRING_def)
  from y_load_items [OF assms _ f] obtain u1 u2 where
    ln: "lex_next (unit_zero\<lparr>data := node_text t, length_u := length (node_text t), start_u := Some 0\<rparr>)
           = Inr (current u1, u1)"
    and p: "parse_node u1 = Inr (node_of t, u2)" and s2: "st u2 []" by auto
  from token_expect_items [OF s2, of TOKEN_NONE] obtain u3 where
    "token_expect u2 TOKEN_NONE = Inr (current u2, u3)" by (auto simp: first_kind_def)
  with p have "parse_unit u1 = Inr (node_of t, u3)" by (simp add: parse_unit_def)
  with ln show ?thesis
    by (simp add: y_load_node_def y_load_def Let_def)
qed



text \<open>
  Examples. A string token is the bytes between the quotes, a backslash included; a
  newline before the closing quote is fatal.
\<close>

lemma token_string_examples:
  \<open>y_load_node ''a "b c"'' = Inr (Y_node ''a'' [] (Val_string ''b c''))\<close>
  \<open>y_load_node (''a "b'' @ [CHR 0x5C] @ ''n" @t'')
     = Inr (Y_node ''a'' [Y_note ''t''] (Val_string (''b'' @ [CHR 0x5C] @ ''n'')))\<close>
  \<open>y_load_node ''a ""'' = Inr (Y_node ''a'' [] (Val_string []))\<close>
  \<open>y_load_node ''a "b\<newline>c"'' = Inl (Fatal ''Strings can not contain a new line.'')\<close>
  by code_simp+

text \<open>
  What \<open>parse_node\<close> does with braces and with scalars, on every state of a unit.
\<close>

lemma parse_nodes_close:
  "kind (current w) = of_char (CHR ''}'') \<Longrightarrow> parse_nodes w = Inr (cs, w') \<Longrightarrow> cs = []"
  by (subst (asm) parse_nodes.simps) (auto simp: token_consume_def split: sum.splits)

lemma parse_node_children:
  assumes "parse_node v = Inr (node, v')" and "token_expect v TOKEN_TEXT = Inr (nm, v1)"
    and "kind (current v1) = of_char (CHR ''{'')"
  shows "\<exists>x v2 v3. token_consume v1 (of_char (CHR ''{'')) = Inr (Some x, v2)
           \<and> parse_nodes v2 = Inr (node_children node, v3)
           \<and> (kind (current v2) = of_char (CHR ''}'') \<longrightarrow> node_children node = [])"
proof -
  from assms obtain x v2 cs v3 where
    c: "token_consume v1 (of_char (CHR ''{'')) = Inr (Some x, v2)"
    and p: "parse_nodes v2 = Inr (cs, v3)"
    and f: "node_finish (value_string (value_t nm)) (Val_node cs) v3 = Inr (node, v')"
    by (subst (asm) parse_node.simps)
       (auto simp: token_consume_def split: sum.splits)
  from f have "node_children node = cs"
    by (auto simp: node_finish_def node_children_def split: sum.splits)
  with c p parse_nodes_close [OF _ p] show ?thesis by auto
qed


lemma strtoull_digits_value:
  assumes "list_all isdigit ds"
  shows "strtoull ds 0 = (if digits_value ds < 2 ^ 64 then word_of_int (digits_value ds) else - 1)"
proof -
  from assms have t: "takeWhile isdigit ds = ds" by (simp add: list_all_iff)
  show ?thesis
    unfolding strtoull_def strtoull_digits_def digits_value_def by (simp add: t Let_def)
qed


text \<open>
  \<open>y_find\<close> over containers and over nodes without value: when the scan of a child list
  fails, the result is absent and the segments after the failing one are not consumed;
  and the child list of a node without value, or of an empty container, is empty.
\<close>

lemma find_stops_in_container:
  assumes "ident x" and "ident y" and "ident z"
    and "heads_nodes ctx = Nodes ns" and "List.find (\<lambda>n. name n = x) ns = Some r"
    and "value_node (value_n r) = Nodes cs"
    and "\<forall>c\<in>set cs. name c \<noteq> y"
  shows "y_find ctx (path_of [x, y, z]) = Inr None
         \<and> (\<exists>u. y_find_unit lit ctx (path_of [x, y, z]) = Inr (None, u)
                \<and> value_t (previous u) = Val_string y
                \<and> kind (current u) = TOKEN_TEXT \<and> value_t (current u) = Val_string z)"
proof -
  from assms(1,5) have fx: "find_scan x ns = Some r"
    by (simp add: find_scan_find ident_no_nul)
  from assms(7) have "List.find (\<lambda>n. name n = y) cs = None"
    by (simp add: find_None_iff)
  with assms(2) have fy: "find_scan y cs = None"
    by (simp add: find_scan_find ident_no_nul)
  from fx fy assms(4,6) have fs: "find_segments (heads_nodes ctx) [x, y, z] = Inr (None, y, [z])"
    by simp
  from assms(1-3) have i: "list_all ident [x, y, z]" by simp
  from y_find_unit_segments [OF i, of lit ctx] fs
  obtain u where "y_find_unit lit ctx (path_of [x, y, z]) = Inr (None, u)"
    and "value_t (previous u) = Val_string y" and "lookahead u [z]"
    by auto
  moreover from y_find_segments [OF i, of ctx] fs
  have "y_find ctx (path_of [x, y, z]) = Inr None" by simp
  ultimately show ?thesis by (auto simp: lookahead_def)
qed

lemma find_absent_below_empty_node:
  assumes "list_all ident segs" and "segs = p @ s # t # ss"
    and "y_find ctx (path_of (p @ [s])) = Inr (Some it)"
    and "value_node (value_n it) = Nodes []"
  shows "y_find ctx (path_of segs) = Inr None"
proof -
  let ?cur = "heads_nodes ctx"
  from assms(1,2) have j: "list_all ident (p @ [s])" by simp
  from assms(3) y_find_segments [OF j, of ctx]
  obtain x u where "find_segments ?cur (p @ [s]) = Inr (Some it, x, u)"
    by (auto split: sum.splits)
  from find_segments_extend [OF this, of t ss] assms(2)
  have "find_segments ?cur segs = find_segments (value_node (value_n it)) (t # ss)" by simp
  with assms(4) have "find_segments ?cur segs = Inr (None, t, ss)" by simp
  with y_find_segments [OF assms(1), of ctx] show ?thesis by simp
qed

text \<open>
  The descent into a scalar: when the node found for a segment that is not the last has
  a value whose bytes are not a null pointer, the scan for the next segment reads that
  value as a node.
\<close>

lemma find_descends_into_scalar:
  assumes "list_all ident (x # y # ss)"
    and "heads_nodes ctx = Nodes ns" and "List.find (\<lambda>n. name n = x) ns = Some r"
    and "value_node (value_n r) = Wild"
  shows "y_find ctx (path_of (x # y # ss)) = Inl Wild_pointer"
proof -
  from assms(1,3) have fx: "find_scan x ns = Some r"
    by (simp add: find_scan_find ident_no_nul)
  with assms(2,4) have "find_segments (heads_nodes ctx) (x # y # ss) = Inl Wild_pointer"
    by simp
  with y_find_segments [OF assms(1), of ctx] show ?thesis by simp
qed

lemma find_on_fresh_context:
  assumes "list_all ident segs" and "segs \<noteq> []"
  shows "y_find y_create (path_of segs) = Inl Dangling_pointer"
proof -
  from assms(2) obtain s ss where "segs = s # ss" by (cases segs) auto
  then have "find_segments (heads_nodes y_create) segs = Inl Dangling_pointer"
    by (simp add: heads_nodes_def y_create_def)
  with y_find_segments [OF assms(1), of y_create] show ?thesis by simp
qed

text \<open>
  A path that holds a comment marker: \<open>y_find\<close> stores into the path. With a string
  literal that is a store into a const object; with an array the caller's bytes change.
\<close>

lemma find_stores_into_path:
  "(case y_load_all y_create [''a { }''] of
      Inl e \<Rightarrow> False
    | Inr ctx \<Rightarrow>
        y_find ctx ''a //c'' = Inl Const_store
        \<and> (case y_find_unit False ctx ''a //c'' of
              Inl e \<Rightarrow> False
            | Inr (r, u) \<Rightarrow> r = Some (Y_node ''a'' [] (Val_node [])) \<and> data u = ''a 1/c''))"
  by code_simp

section \<open>The claims\<close>

text \<open>
  C1. The claim: with two or more units loaded, \<open>find\<close> scans all loaded roots from the
  head of the forest, so a first segment naming the first root matches it. The code does
  not: \<open>y_load\<close> moves \<open>heads\<close> to the root it has just linked, and \<open>y_find\<close> starts at
  \<open>heads\<close>, so only the root loaded last is scanned (\<open>y_load_heads\<close>,
  \<open>y_find_after_second_load\<close>). After loading \<open>a { }\<close> and then \<open>b { }\<close>, \<open>find "a"\<close> is
  absent and \<open>find "b"\<close> succeeds.
\<close>

theorem y_find_scans_last_root_only:
  "(case y_load_all y_create [''a { }'', ''b { }''] of
      Inl e \<Rightarrow> False
    | Inr y \<Rightarrow>
        y_find y ''a'' = Inr None
        \<and> y_find y ''b'' = Inr (Some (Y_node ''b'' [] (Val_node []))))"
  by code_simp

text \<open>
  C2. The claim: the value kind of a node is Node if and only if its child list is not
  empty. The parser sets the kind by the brace, not by the children: \<open>a { }\<close> is a Node
  with an empty child list (as C7 says too).
\<close>

theorem empty_container_is_node:
  "y_load_node ''a { }'' = Inr (Y_node ''a'' [] (Val_node []))
   \<and> \<not> ((value_kind (value_n (Y_node ''a'' [] (Val_node []))) = Y_NODE)
          = (node_children (Y_node ''a'' [] (Val_node [])) \<noteq> []))"
proof -
  have "y_load_node ''a { }'' = Inr (Y_node ''a'' [] (Val_node []))" by code_simp
  then show ?thesis by (simp add: node_children_def)
qed

text \<open>
  C2, amended. Every node is built by a call of \<open>parse_node\<close> (the root by
  \<open>parse_unit\<close>, each child of a container by \<open>parse_nodes\<close>). In every call that
  returns a node, on whatever state of a unit: the name of the node is the text token the
  call starts at; the kind is Node exactly when the token after the name is an opening
  brace, and None exactly when that token is neither a brace, a number nor a string.
  After a brace the child list of the node is the list that \<open>parse_nodes\<close> reads from
  the token after the brace, and it is empty when that token is the closing brace.
\<close>

theorem node_kind_follows_brace:
  assumes "parse_node v = Inr (node, v')"
  shows "\<exists>nm v1. token_expect v TOKEN_TEXT = Inr (nm, v1)
           \<and> name node = value_string (value_t nm)
           \<and> ((value_kind (value_n node) = Y_NODE) = (kind (current v1) = of_char (CHR ''{'')))
           \<and> ((value_kind (value_n node) = Y_NONE)
                = (kind (current v1) \<noteq> of_char (CHR ''{'') \<and> kind (current v1) \<noteq> TOKEN_NUMBER
                   \<and> kind (current v1) \<noteq> TOKEN_STRING))
           \<and> (kind (current v1) = of_char (CHR ''{'') \<longrightarrow>
                (\<exists>x v2 v3. token_consume v1 (of_char (CHR ''{'')) = Inr (Some x, v2)
                    \<and> parse_nodes v2 = Inr (node_children node, v3)
                    \<and> (kind (current v2) = of_char (CHR ''}'') \<longrightarrow> node_children node = [])))"
proof -
  from parse_node_value [OF assms] obtain nm v1 where
    e: "token_expect v TOKEN_TEXT = Inr (nm, v1)" and ok: "token_value_ok (current v1)"
    and nm: "name node = value_string (value_t nm)"
    and v: "if kind (current v1) = of_char (CHR ''{'') then \<exists>cs. value_n node = Val_node cs
            else if kind (current v1) = TOKEN_NUMBER \<or> kind (current v1) = TOKEN_STRING
            then value_n node = value_t (current v1)
            else value_n node = Val_none"
    by blast
  from ok v have
    "(value_kind (value_n node) = Y_NODE) = (kind (current v1) = of_char (CHR ''{''))"
    "(value_kind (value_n node) = Y_NONE)
       = (kind (current v1) \<noteq> of_char (CHR ''{'') \<and> kind (current v1) \<noteq> TOKEN_NUMBER
          \<and> kind (current v1) \<noteq> TOKEN_STRING)"
    by (auto simp: token_value_ok_def TOKEN_NUMBER_def TOKEN_STRING_def TOKEN_TEXT_def split: if_splits)
  with e nm parse_node_children [OF assms e] show ?thesis by blast
qed

theorem node_kind_follows_brace_witness:
  "(case lex_next (unit_zero\<lparr>data := ''a { }'', length_u := 5, start_u := Some 0\<rparr>) of
      Inl e \<Rightarrow> False
    | Inr (t, v) \<Rightarrow>
        (case parse_node v of
           Inl e \<Rightarrow> False
         | Inr (node, v') \<Rightarrow>
             node = Y_node ''a'' [] (Val_node [])
             \<and> (\<exists>nm v1 x v2 v3. token_expect v TOKEN_TEXT = Inr (nm, v1)
                    \<and> kind (current v1) = of_char (CHR ''{'')
                    \<and> token_consume v1 (of_char (CHR ''{'')) = Inr (Some x, v2)
                    \<and> kind (current v2) = of_char (CHR ''}'')
                    \<and> parse_nodes v2 = Inr ([], v3))))"
proof -
  let ?u0 = "unit_zero\<lparr>data := ''a { }'', length_u := 5, start_u := Some 0\<rparr>"
  have "(case lex_next ?u0 of
           Inl e \<Rightarrow> False
         | Inr (t, v) \<Rightarrow>
             (case parse_node v of
                Inl e \<Rightarrow> False
              | Inr (node, v') \<Rightarrow> node = Y_node ''a'' [] (Val_node []))
             \<and> (case token_expect v TOKEN_TEXT of
                   Inl e \<Rightarrow> False
                 | Inr (nm, v1) \<Rightarrow>
                     (case token_consume v1 (of_char (CHR ''{'')) of
                        Inl e \<Rightarrow> False
                      | Inr (x, v2) \<Rightarrow> kind (current v2) = of_char (CHR ''}''))))"
    by code_simp
  then obtain t v where l: "lex_next ?u0 = Inr (t, v)"
    and a: "(case parse_node v of
                Inl e \<Rightarrow> False
              | Inr (node, v') \<Rightarrow> node = Y_node ''a'' [] (Val_node []))"
    and k: "(case token_expect v TOKEN_TEXT of
                   Inl e \<Rightarrow> False
                 | Inr (nm, v1) \<Rightarrow>
                     (case token_consume v1 (of_char (CHR ''{'')) of
                        Inl e \<Rightarrow> False
                      | Inr (x, v2) \<Rightarrow> kind (current v2) = of_char (CHR ''}'')))"
    by (cases "lex_next ?u0") auto
  from a obtain v' where p: "parse_node v = Inr (Y_node ''a'' [] (Val_node []), v')"
    by (cases "parse_node v") auto
  from node_kind_follows_brace [OF p] obtain nm v1 where
    e: "token_expect v TOKEN_TEXT = Inr (nm, v1)"
    and b: "kind (current v1) = of_char (CHR ''{'')"
    and c: "kind (current v1) = of_char (CHR ''{'') \<longrightarrow>
                (\<exists>x v2 v3. token_consume v1 (of_char (CHR ''{'')) = Inr (Some x, v2)
                    \<and> parse_nodes v2 = Inr (node_children (Y_node ''a'' [] (Val_node [])), v3)
                    \<and> (kind (current v2) = of_char (CHR ''}'')
                         \<longrightarrow> node_children (Y_node ''a'' [] (Val_node [])) = []))"
    by auto
  from b c obtain x v2 v3 where
    tc: "token_consume v1 (of_char (CHR ''{'')) = Inr (Some x, v2)"
    and pn: "parse_nodes v2 = Inr ([], v3)"
    by (auto simp: node_children_def)
  from k e tc have "kind (current v2) = of_char (CHR ''}'')" by simp
  with l p e b tc pn show ?thesis by auto
qed


text \<open>
  C3. The claim: when a segment that is not the last matches a node that is not a
  container, the descent goes on with an empty child list and \<open>find\<close> returns absent.
  The code reads \<open>it->value.node\<close> without a look at \<open>it->value.kind\<close>: for a scalar
  node the bytes of the scalar become the list to scan. On the forest of \<open>a 42\<close> the path
  \<open>a\<close> finds the node, and the path \<open>a b\<close> makes the Integer 42 the list in which \<open>b\<close>
  is looked for: the scan reads the name of a node at the address 42
  (\<open>find_descends_into_scalar\<close> for every such forest and path). The other half of the
  claim holds: a fatal error of \<open>y_find\<close> is a lexical error of the path (\<open>y_find_fatal\<close>),
  and the descent into a node without value or into an empty container ends in absent
  (\<open>find_absent_below_empty_node\<close>).
\<close>

theorem find_reads_scalar_as_child_list:
  "(case y_load_all y_create [''a 42''] of
      Inl e \<Rightarrow> False
    | Inr ctx \<Rightarrow> y_find ctx ''a'' = Inr (Some (Y_node ''a'' [] (Val_integer 42)))
                 \<and> y_find ctx ''a b'' = Inl Wild_pointer)"
  by code_simp

text \<open>
  C4. The claim: skipping a \<open>//\<close> comment leaves every byte of the buffer unchanged. The
  code writes to the buffer: \<open>*ch += 2\<close> in \<open>raw\<close> adds 2 to the first \<open>/\<close> of the marker,
  which becomes \<open>1\<close>. On the buffer \<open>//x\<close>, newline, \<open>y\<close> the call returns the position of
  the newline with the cursor just after it, and the buffer starts with \<open>1/\<close>.
\<close>

theorem raw_comment_writes_buffer:
  "raw (unit_zero\<lparr>data := ''//x\<newline>y'', length_u := 5\<rparr>)
     = Inr (3, unit_zero\<lparr>data := ''1/x\<newline>y'', length_u := 5, cursor := 4\<rparr>)"
  by code_simp

text \<open>
  C5. The claim: a string literal that reaches the end of the buffer without a closing
  quote is a fatal error. The loop of \<open>token_string\<close> tests for the quote and for a
  newline only: at the terminating NUL it goes on and reads beyond the buffer, and
  \<open>fatal_at\<close> is not called. Loading \<open>a "bc\<close> ends in that read.
\<close>

theorem token_string_reads_past_end: \<open>y_load_node ''a "bc'' = Inl Out_of_bounds\<close>
  by code_simp

text \<open>
  C6. The claim: underscores in an integer literal are digit separators, so \<open>1_000\<close>
  decodes to 1000. \<open>token_number\<close> accepts the underscores, but \<open>strtoull\<close> stops at the
  first one: the node \<open>x 1_000\<close> has the Integer 1.
\<close>

theorem integer_stops_at_underscore:
  "y_load_node ''x 1_000'' = Inr (Y_node ''x'' [] (Val_integer 1))"
  by code_simp




text \<open>
  C8. The claim: for a path \<open>x y z\<close> over a forest where a root named \<open>x\<close> exists but has
  no child named \<open>y\<close>, the result is absent and \<open>z\<close> is not resolved. When the root \<open>x\<close>
  is a container or has no value, the code does this: the scan of the child list fails,
  the result is absent, \<open>y\<close> is the last token consumed and \<open>z\<close> is still the current
  token (\<open>find_stops_in_container\<close>). When the root \<open>x\<close> is a scalar it has no child named
  \<open>y\<close> either, but the code does not return absent: it reads the scalar as the child
  list (the defect of C3). On the forest of \<open>x 42\<close> the path \<open>x y z\<close> ends in the read
  of a node at the address 42.
\<close>

theorem find_scalar_root_not_absent:
  "(case y_load_all y_create [''x 42''] of
      Inl e \<Rightarrow> False
    | Inr ctx \<Rightarrow> y_find ctx ''x y z'' = Inl Wild_pointer)"
  by code_simp

text \<open>
  C9. Notes are attached in the order written: the text of a well-formed tree loads as
  that tree, whose notes are those written, in that order; for an identifier \<open>nm\<close> and
  identifiers \<open>an\<close>, the unit \<open>nm @a1 @a2 ...\<close> loads as the node \<open>nm\<close> with the notes
  \<open>a1\<close>, \<open>a2\<close>, ... \<open>y_has\<close> returns a pointer to a note of the list; that pointer is the
  list from the note on. For every node of a loaded tree and every query it is the list
  from the first note on whose name is the query (same length, same bytes, no case
  folding), and null when no note has that name: with two notes of one name the pointer
  is to the first. The same holds for any node and query of which one side holds no NUL
  byte (\<open>strncmp\<close> stops at a NUL).
\<close>

theorem notes_in_order_first_match:
  "(node_wf t \<longrightarrow>
      y_load_node (node_text t) = Inr (node_of t) \<and> note_n (node_of t) = map Y_note (s_notes t))
   \<and> (ident nm \<and> list_all ident an \<longrightarrow>
         y_load_node (nm @ notes_text an) = Inr (Y_node nm (map Y_note an) Val_none))
   \<and> (y_load_node bytes = Inr r0 \<and> m \<in> subnodes r0 \<longrightarrow>
         y_has m q = (case dropWhile (\<lambda>n. note_name n \<noteq> q) (note_n m) of
                        [] \<Rightarrow> None | it # rest \<Rightarrow> Some (it # rest)))
   \<and> (CHR 0x00 \<notin> set q \<or> (\<forall>n\<in>set (note_n node). CHR 0x00 \<notin> set (note_name n)) \<longrightarrow>
         y_has node q = (case dropWhile (\<lambda>n. note_name n \<noteq> q) (note_n node) of
                           [] \<Rightarrow> None | it # rest \<Rightarrow> Some (it # rest)))"
proof (intro conjI impI)
  assume "node_wf t"
  then show "y_load_node (node_text t) = Inr (node_of t)" by (rule y_load_node_text)
  show "note_n (node_of t) = map Y_note (s_notes t)" by (cases t) simp
next
  assume "ident nm \<and> list_all ident an"
  with y_load_node_text [of "S_node nm S_none an"]
  show "y_load_node (nm @ notes_text an) = Inr (Y_node nm (map Y_note an) Val_none)" by simp
next
  assume "y_load_node bytes = Inr r0 \<and> m \<in> subnodes r0"
  with y_load_node_notes [of bytes r0 m]
  show "y_has m q = (case dropWhile (\<lambda>n. note_name n \<noteq> q) (note_n m) of
                        [] \<Rightarrow> None | it # rest \<Rightarrow> Some (it # rest))"
    by (auto simp: y_has_def intro!: has_scan_find)
next
  assume "CHR 0x00 \<notin> set q \<or> (\<forall>n\<in>set (note_n node). CHR 0x00 \<notin> set (note_name n))"
  then show "y_has node q = (case dropWhile (\<lambda>n. note_name n \<noteq> q) (note_n node) of
                           [] \<Rightarrow> None | it # rest \<Rightarrow> Some (it # rest))"
    unfolding y_has_def by (rule has_scan_find)
qed

theorem notes_in_order_first_match_witness:
  "node_wf (S_node ''n'' (S_int ''1'') [''a'', ''b'', ''a''])
   \<and> y_load_node ''n 1 @a @b @a''
        = Inr (Y_node ''n'' [Y_note ''a'', Y_note ''b'', Y_note ''a''] (Val_integer 1))
   \<and> ident ''name'' \<and> list_all ident [''a'', ''b'']
   \<and> y_load_node ''name @a @b'' = Inr (Y_node ''name'' [Y_note ''a'', Y_note ''b''] Val_none)
   \<and> Y_node ''n'' [Y_note ''a'', Y_note ''b'', Y_note ''a''] (Val_integer 1)
        \<in> subnodes (Y_node ''n'' [Y_note ''a'', Y_note ''b'', Y_note ''a''] (Val_integer 1))
   \<and> y_has (Y_node ''n'' [Y_note ''a'', Y_note ''b'', Y_note ''a''] (Val_integer 1)) ''a''
        = Some [Y_note ''a'', Y_note ''b'', Y_note ''a'']
   \<and> y_has (Y_node ''n'' [Y_note ''a'', Y_note ''b'', Y_note ''a''] (Val_integer 1)) ''b''
        = Some [Y_note ''b'', Y_note ''a'']
   \<and> y_has (Y_node ''n'' [Y_note ''a'', Y_note ''b'', Y_note ''a''] (Val_integer 1)) ''c'' = None
   \<and> y_has (Y_node ''n'' [Y_note ''a'', Y_note ''b'', Y_note ''a''] (Val_integer 1)) ''A'' = None
   \<and> CHR 0x00 \<notin> set ''b''
   \<and> y_has (Y_node [] [Y_note ''b'', Y_note [CHR 0x00], Y_note ''b''] Val_none) ''b''
        = Some [Y_note ''b'', Y_note [CHR 0x00], Y_note ''b'']"
proof -
  let ?S = "S_node ''n'' (S_int ''1'') [''a'', ''b'', ''a'']"
  let ?n = "Y_node ''n'' [Y_note ''a'', Y_note ''b'', Y_note ''a''] (Val_integer 1)"
  let ?k = "Y_node [] [Y_note ''b'', Y_note [CHR 0x00], Y_note ''b''] Val_none"
  have id: "ident ''n''" "ident ''a''" "ident ''b''" "ident ''name''"
    by (simp_all add: ident_def ident_char_def isalpha_def isdigit_def)
  then have wf: "node_wf ?S" by (simp add: isdigit_def)
  have v: "strtoull ''1'' 0 = 1" by code_simp
  from notes_in_order_first_match [where t = ?S] wf v
  have l: "y_load_node ''n 1 @a @b @a'' = Inr ?n" by (simp add: notes_text_def)
  from notes_in_order_first_match [where nm = "''name''" and an = "[''a'', ''b'']"] id
  have l2: "y_load_node ''name @a @b'' = Inr (Y_node ''name'' [Y_note ''a'', Y_note ''b''] Val_none)"
    by (simp add: notes_text_def)
  have s: "?n \<in> subnodes ?n" by simp
  note th = notes_in_order_first_match [where bytes = "''n 1 @a @b @a''" and ?r0.0 = ?n and m = ?n]
  from th [where q = "''a''"] l s
  have a: "y_has ?n ''a'' = Some [Y_note ''a'', Y_note ''b'', Y_note ''a'']" by simp
  from th [where q = "''b''"] l s
  have b: "y_has ?n ''b'' = Some [Y_note ''b'', Y_note ''a'']" by simp
  from th [where q = "''c''"] l s have c: "y_has ?n ''c'' = None" by simp
  from th [where q = "''A''"] l s have d: "y_has ?n ''A'' = None" by simp
  have z: "CHR 0x00 \<notin> set ''b''" by simp
  from notes_in_order_first_match [where node = ?k and q = "''b''"] z
  have e: "y_has ?k ''b'' = Some [Y_note ''b'', Y_note [CHR 0x00], Y_note ''b'']" by simp
  from wf l id l2 s a b c d z e show ?thesis by simp
qed

text \<open>
  C10. The claim: on a context on which nothing has been loaded, \<open>find\<close> returns absent
  for every path with a text segment, because the scan starts at the zero-filled sentinel.
  It would, if \<open>heads\<close> were the address of the sentinel of the context. But \<open>y_create\<close>
  returns its local \<open>ctx\<close> by value after \<open>ctx.heads = &ctx.root\<close>: in the context the
  caller holds, \<open>heads\<close> is the address of the \<open>root\<close> of that local, which is gone. The
  first scan of \<open>y_find\<close> reads \<open>it->name\<close> through it (\<open>find_on_fresh_context\<close> for every
  path of identifiers).
\<close>

theorem find_on_fresh_context_dangles:
  "y_find y_create ''a'' = Inl Dangling_pointer
   \<and> y_find y_create ''settings graphics'' = Inl Dangling_pointer"
  by (intro conjI; code_simp)

end
